theory Spec2Isabelle
  imports Main "HOL-Library.Word" "HOL-Library.Signed_Division"
begin

section \<open>FakeAnalogWrite: software PWM on one timer interrupt\<close>

text \<open>
  The sketch \<^verbatim>\<open>examples/FakeAnalogWrite/FakeAnalogWrite.ino\<close> keeps a table of 16
  channel records, written by \<^verbatim>\<open>fakeAnalogWrite\<close> from the main program and read and
  advanced by \<^verbatim>\<open>TimerHandler\<close>, the callback of the 10 kHz timer interrupt.

  The embedding follows the sketch as it is compiled: \<^verbatim>\<open>USING_MAPPING_TABLE\<close> is
  \<^verbatim>\<open>false\<close>, so the floating-point mapping table is not part of the program, and the
  \<^verbatim>\<open>Serial\<close> prints of \<^verbatim>\<open>LOCAL_DEBUG\<close> touch no program state and are left out.
  The target is an 8-bit AVR: \<^verbatim>\<open>int\<close> has 16 bits, \<^verbatim>\<open>unsigned long\<close> has 32.
\<close>

subsection \<open>Constants\<close>

type_synonym uint16_t = "16 word"
type_synonym int16_t = "16 word"
type_synonym uint32_t = "32 word"

definition MAX_PWM_VALUE :: nat where
  "MAX_PWM_VALUE = 256"

definition NUMBER_ISR_TIMERS :: nat where
  "NUMBER_ISR_TIMERS = 16"

text \<open>The sketch's fallback \<^verbatim>\<open>#define LED_BUILTIN 13\<close>, the value of the AVR boards it names.\<close>

definition LED_BUILTIN :: uint16_t where
  "LED_BUILTIN = 13"

definition TIMER2_FREQUENCY_HZ :: nat where
  "TIMER2_FREQUENCY_HZ = 10000"

definition LED_TOGGLE_INTERVAL_MS :: nat where
  "LED_TOGGLE_INTERVAL_MS = 500"

subsection \<open>The channel record and the program state\<close>

text \<open>
  \<^verbatim>\<open>ISRTimerData\<close>, field by field. \<^verbatim>\<open>PWM_Value\<close> and \<^verbatim>\<open>countPWM\<close> are
  \<^verbatim>\<open>int16_t\<close>: the same 16 bits read as two's complement, so their comparisons
  with 0 are the signed ones (\<open><s\<close>, \<open>\<le>s\<close>), and storing the \<^verbatim>\<open>uint16_t\<close>
  \<^verbatim>\<open>localValue\<close> into \<^verbatim>\<open>PWM_Value\<close> keeps the bits.
\<close>

record ISRTimerData =
  PWM_Value :: int16_t
  PWM_PremapValue :: uint16_t
  pin :: uint16_t
  countPWM :: int16_t
  beingUsed :: bool

text \<open>
  The state is the global table \<^verbatim>\<open>curISRTimerData\<close>, the two \<^verbatim>\<open>static\<close> locals of
  \<^verbatim>\<open>TimerHandler\<close>, and what the digital I/O layer holds: the level last written to
  each pin by \<^verbatim>\<open>digitalWrite\<close> and the pins made outputs by \<^verbatim>\<open>pinMode\<close>. The I/O
  layer belongs to the board core, not to this repository; a pin is the logical
  identifier the sketch passes.
\<close>

record state =
  curISRTimerData :: "ISRTimerData list"
  toggle :: bool
  timeRun :: uint32_t
  pinLevel :: "uint16_t \<Rightarrow> bool"
  pinOutput :: "uint16_t \<Rightarrow> bool"

definition digitalWrite :: "uint16_t \<Rightarrow> bool \<Rightarrow> state \<Rightarrow> state" where
  "digitalWrite p lvl s = s\<lparr>pinLevel := (pinLevel s)(p := lvl)\<rparr>"

definition pinMode_OUTPUT :: "uint16_t \<Rightarrow> state \<Rightarrow> state" where
  "pinMode_OUTPUT p s = s\<lparr>pinOutput := (pinOutput s)(p := True)\<rparr>"

text \<open>The initializer \<^verbatim>\<open>{ 0, 0, 0, 0, false }\<close> of each of the 16 entries.\<close>

definition zeroData :: ISRTimerData where
  "zeroData = \<lparr>PWM_Value = 0, PWM_PremapValue = 0, pin = 0, countPWM = 0, beingUsed = False\<rparr>"

text \<open>
  The state when \<^verbatim>\<open>setup\<close> returns: the table as initialised (the loop of \<^verbatim>\<open>setup\<close>
  stores the same zeros again), the statics at their initial values, every pin low,
  and \<^verbatim>\<open>LED_BUILTIN\<close> an output.
\<close>

definition after_setup :: state where
  "after_setup = \<lparr>curISRTimerData = replicate NUMBER_ISR_TIMERS zeroData,
            toggle = False, timeRun = 0,
            pinLevel = (\<lambda>_. False),
            pinOutput = (\<lambda>p. p = LED_BUILTIN)\<rparr>"

subsection \<open>The tick: \<^verbatim>\<open>doingSomething\<close> and \<^verbatim>\<open>TimerHandler\<close>\<close>

text \<open>
  \<^verbatim>\<open>(countPWM + 1) % MAX_PWM_VALUE\<close>: the operand is promoted to \<^verbatim>\<open>int\<close>, the
  remainder of C truncates towards zero (\<open>smod\<close>), and the result is stored back into
  the \<^verbatim>\<open>int16_t\<close> field. The sum is taken in the integers: at 32767, where the
  16-bit addition would overflow, the remainder is 0 with or without the wrap-around.
\<close>

definition nextCount :: "int16_t \<Rightarrow> int16_t" where
  "nextCount c = word_of_int ((sint c + 1) smod int MAX_PWM_VALUE)"

text \<open>
  \<^verbatim>\<open>doingSomething(index)\<close>, which \<^verbatim>\<open>TimerHandler\<close> calls with the indices 0 to 15
  only: the writes to the pin under the three tests, then the advance of the counter.
\<close>

definition doingSomething :: "nat \<Rightarrow> state \<Rightarrow> state" where
  "doingSomething index s =
    (let d = curISRTimerData s ! index;
         s1 = (if beingUsed d \<and> 0 <s PWM_Value d \<and> pin d \<noteq> 0 then
                 (if countPWM d = 0 then
                    (if 0 <s PWM_Value d then digitalWrite (pin d) True s
                     else digitalWrite (pin d) False s)
                  else if countPWM d = PWM_Value d then digitalWrite (pin d) False s
                  else s)
               else s)
     in s1\<lparr>curISRTimerData :=
              (curISRTimerData s1)[index := d\<lparr>countPWM := nextCount (countPWM d)\<rparr>]\<rparr>)"

text \<open>
  \<^verbatim>\<open>TimerHandler\<close>: the loop over the 16 entries, then the heartbeat, which toggles
  \<^verbatim>\<open>LED_BUILTIN\<close> every \<^verbatim>\<open>(LED_TOGGLE_INTERVAL_MS * TIMER2_FREQUENCY_HZ) / 1000\<close> ticks.
\<close>

definition TimerHandler :: "state \<Rightarrow> state" where
  "TimerHandler s =
    (let s1 = fold doingSomething [0..<NUMBER_ISR_TIMERS] s;
         tr = timeRun s1 + 1
     in if tr = of_nat ((LED_TOGGLE_INTERVAL_MS * TIMER2_FREQUENCY_HZ) div 1000)
        then (digitalWrite LED_BUILTIN (toggle s1) s1)\<lparr>timeRun := 0, toggle := \<not> toggle s1\<rparr>
        else s1\<lparr>timeRun := tr\<rparr>)"

subsection \<open>The request: \<^verbatim>\<open>fakeAnalogWrite\<close>\<close>

text \<open>\<^verbatim>\<open>localValue = (value < MAX_PWM_VALUE) ? value : MAX_PWM_VALUE\<close>, as both loops compute it.\<close>

definition localValue :: "uint16_t \<Rightarrow> uint16_t" where
  "localValue val = (if val < of_nat MAX_PWM_VALUE then val else of_nat MAX_PWM_VALUE)"

text \<open>
  The body of the first loop at the entry \<open>i\<close> that holds the pin: ignore the same
  value, else update an entry whose \<^verbatim>\<open>PWM_Value\<close> is not negative, else free the
  entry; the last two reset \<^verbatim>\<open>countPWM\<close>. Both arms of the boundary test store
  \<^verbatim>\<open>localValue\<close>, since the mapping table is compiled out.
\<close>

definition updateFound :: "nat \<Rightarrow> uint16_t \<Rightarrow> state \<Rightarrow> state" where
  "updateFound i val s =
    (let t = curISRTimerData s; d = t ! i; lv = localValue val in
     if PWM_PremapValue d = lv then s
     else if 0 \<le>s PWM_Value d then
       (let d1 = d\<lparr>PWM_PremapValue := lv\<rparr>;
            d2 = (if lv = 0 \<or> lv = of_nat MAX_PWM_VALUE - 1
                  then d1\<lparr>PWM_Value := lv\<rparr>
                  else d1\<lparr>PWM_Value := lv\<rparr>)
        in s\<lparr>curISRTimerData := t[i := d2\<lparr>countPWM := 0\<rparr>]\<rparr>)
     else
       s\<lparr>curISRTimerData :=
           t[i := d\<lparr>beingUsed := False, pin := 0, PWM_Value := 0, countPWM := 0\<rparr>]\<rparr>)"

text \<open>
  The body of the second loop at the first free entry \<open>i\<close>: bind the pin, store the
  value (\<^verbatim>\<open>PWM_PremapValue\<close> only in the arm that is not a boundary value), reset
  \<^verbatim>\<open>countPWM\<close>, and make the pin an output.
\<close>

definition allocate :: "nat \<Rightarrow> uint16_t \<Rightarrow> uint16_t \<Rightarrow> state \<Rightarrow> state" where
  "allocate i p val s =
    (let t = curISRTimerData s;
         d1 = (t ! i)\<lparr>beingUsed := True, pin := p\<rparr>;
         lv = localValue val;
         d2 = (if lv = 0 \<or> lv = of_nat MAX_PWM_VALUE - 1
               then d1\<lparr>PWM_Value := lv\<rparr>
               else d1\<lparr>PWM_PremapValue := lv, PWM_Value := lv\<rparr>)
     in pinMode_OUTPUT p (s\<lparr>curISRTimerData := t[i := d2\<lparr>countPWM := 0\<rparr>]\<rparr>))"

text \<open>
  The searches of the two loops, each returning at its first hit: the first entry in
  use that holds the pin, and the first entry not in use.
\<close>

definition slotOf :: "uint16_t \<Rightarrow> state \<Rightarrow> nat option" where
  "slotOf p s =
    find (\<lambda>i. beingUsed (curISRTimerData s ! i) \<and> pin (curISRTimerData s ! i) = p)
      [0..<NUMBER_ISR_TIMERS]"

definition freeSlot :: "state \<Rightarrow> nat option" where
  "freeSlot s = find (\<lambda>i. \<not> beingUsed (curISRTimerData s ! i)) [0..<NUMBER_ISR_TIMERS]"

definition fakeAnalogWrite :: "uint16_t \<Rightarrow> uint16_t \<Rightarrow> state \<Rightarrow> state" where
  "fakeAnalogWrite p val s =
    (case slotOf p s of
       Some i \<Rightarrow> updateFound i val s
     | None \<Rightarrow>
        (case freeSlot s of
           Some i \<Rightarrow> allocate i p val s
         | None \<Rightarrow> s))"

subsection \<open>Reachable states\<close>

text \<open>
  The states the program reaches without preemption inside a request: from the state
  after \<^verbatim>\<open>setup\<close>, any sequence of requests and ticks. The requests of
  \<^verbatim>\<open>loop\<close> with the ticks between them are one such sequence.
\<close>

inductive reachable :: "state \<Rightarrow> bool" where
  init: "reachable after_setup"
| request: "reachable s \<Longrightarrow> reachable (fakeAnalogWrite p val s)"
| tick: "reachable s \<Longrightarrow> reachable (TimerHandler s)"

subsection \<open>What one tick does to an entry and to the pins\<close>

text \<open>
  Two descriptions read off \<^verbatim>\<open>doingSomething\<close>, used to state what a whole tick
  does: \<open>stepData\<close> is its last line on one entry, \<open>drive\<close> is its
  \<^verbatim>\<open>digitalWrite\<close> calls for one entry as a change of the pin levels.
\<close>

definition stepData :: "ISRTimerData \<Rightarrow> ISRTimerData" where
  "stepData d = d\<lparr>countPWM := nextCount (countPWM d)\<rparr>"

definition drive :: "ISRTimerData \<Rightarrow> (uint16_t \<Rightarrow> bool) \<Rightarrow> (uint16_t \<Rightarrow> bool)" where
  "drive d lv =
    (if beingUsed d \<and> 0 <s PWM_Value d \<and> pin d \<noteq> 0 then
       (if countPWM d = 0 then lv(pin d := True)
        else if countPWM d = PWM_Value d then lv(pin d := False)
        else lv)
     else lv)"

subsection \<open>Invariants of the reachable states\<close>

text \<open>
  \<open>slotInv\<close>: the counter is below \<^verbatim>\<open>MAX_PWM_VALUE\<close>, the duty is at most
  \<^verbatim>\<open>MAX_PWM_VALUE\<close>, the recorded request is the duty (or still 0 under a duty of
  255 stored by an allocation), and an entry not in use holds zeros.
  \<open>tableInv\<close>: 16 entries, each with \<open>slotInv\<close>, no pin held by two entries in use.
  \<open>levelInv\<close>: once an entry that drives its pin has left phase 0, the pin is high
  exactly while the counter has not passed the duty.
\<close>

definition slotInv :: "ISRTimerData \<Rightarrow> bool" where
  "slotInv d \<longleftrightarrow>
     unat (countPWM d) < MAX_PWM_VALUE \<and>
     unat (PWM_Value d) \<le> MAX_PWM_VALUE \<and>
     (PWM_PremapValue d = PWM_Value d \<or> PWM_PremapValue d = 0 \<and> PWM_Value d = 255) \<and>
     (\<not> beingUsed d \<longrightarrow> PWM_PremapValue d = 0 \<and> PWM_Value d = 0)"

definition tableInv :: "state \<Rightarrow> bool" where
  "tableInv s \<longleftrightarrow>
     length (curISRTimerData s) = NUMBER_ISR_TIMERS \<and>
     (\<forall>d\<in>set (curISRTimerData s). slotInv d) \<and>
     (\<forall>i<NUMBER_ISR_TIMERS. \<forall>j<NUMBER_ISR_TIMERS.
        beingUsed (curISRTimerData s ! i) \<and> beingUsed (curISRTimerData s ! j) \<and>
        pin (curISRTimerData s ! i) = pin (curISRTimerData s ! j) \<longrightarrow> i = j)"

definition levelInv :: "state \<Rightarrow> bool" where
  "levelInv s \<longleftrightarrow>
     (\<forall>d\<in>set (curISRTimerData s).
        beingUsed d \<and> PWM_Value d \<noteq> 0 \<and> pin d \<noteq> 0 \<and> pin d \<noteq> LED_BUILTIN \<and> countPWM d \<noteq> 0 \<longrightarrow>
        pinLevel s (pin d) = (unat (countPWM d) \<le> unat (PWM_Value d)))"

subsection \<open>Observing the pins\<close>

text \<open>
  \<open>highTicks p m s\<close>: of the next \<open>m\<close> ticks from state \<open>s\<close>, the number after
  which pin \<open>p\<close> is high.
\<close>

definition highTicks :: "uint16_t \<Rightarrow> nat \<Rightarrow> state \<Rightarrow> nat" where
  "highTicks p m s = length (filter (\<lambda>k. pinLevel ((TimerHandler ^^ Suc k) s) p) [0..<m])"

subsection \<open>The request, store by store\<close>

text \<open>
  \<^verbatim>\<open>fakeAnalogWrite\<close> contains no \<^verbatim>\<open>noInterrupts\<close>, \<^verbatim>\<open>cli\<close> or other masking of
  the timer interrupt, so a tick can run between any two of its stores. The lists
  below are the stores of each path in program order, one assignment statement of the
  sketch each; the tests that choose the path read only fields that a tick does not
  write. \<open>preempted k\<close> is the request with one tick taken after its first \<open>k\<close>
  stores.
\<close>

definition setSlot :: "nat \<Rightarrow> (ISRTimerData \<Rightarrow> ISRTimerData) \<Rightarrow> state \<Rightarrow> state" where
  "setSlot i f s = s\<lparr>curISRTimerData := (curISRTimerData s)[i := f (curISRTimerData s ! i)]\<rparr>"

definition updateFound_stores :: "nat \<Rightarrow> uint16_t \<Rightarrow> state \<Rightarrow> (state \<Rightarrow> state) list" where
  "updateFound_stores i val s =
    (let d = curISRTimerData s ! i; lv = localValue val in
     if PWM_PremapValue d = lv then []
     else if 0 \<le>s PWM_Value d then
       [setSlot i (\<lambda>d. d\<lparr>PWM_PremapValue := lv\<rparr>),
        setSlot i (\<lambda>d. d\<lparr>PWM_Value := lv\<rparr>),
        setSlot i (\<lambda>d. d\<lparr>countPWM := 0\<rparr>)]
     else
       [setSlot i (\<lambda>d. d\<lparr>beingUsed := False\<rparr>),
        setSlot i (\<lambda>d. d\<lparr>pin := 0\<rparr>),
        setSlot i (\<lambda>d. d\<lparr>PWM_Value := 0\<rparr>),
        setSlot i (\<lambda>d. d\<lparr>countPWM := 0\<rparr>)])"

definition allocate_stores :: "nat \<Rightarrow> uint16_t \<Rightarrow> uint16_t \<Rightarrow> (state \<Rightarrow> state) list" where
  "allocate_stores i p val =
    (let lv = localValue val in
     [setSlot i (\<lambda>d. d\<lparr>beingUsed := True\<rparr>),
      setSlot i (\<lambda>d. d\<lparr>pin := p\<rparr>)] @
     (if lv = 0 \<or> lv = of_nat MAX_PWM_VALUE - 1
      then [setSlot i (\<lambda>d. d\<lparr>PWM_Value := lv\<rparr>)]
      else [setSlot i (\<lambda>d. d\<lparr>PWM_PremapValue := lv\<rparr>),
            setSlot i (\<lambda>d. d\<lparr>PWM_Value := lv\<rparr>)]) @
     [setSlot i (\<lambda>d. d\<lparr>countPWM := 0\<rparr>),
      pinMode_OUTPUT p])"

definition fakeAnalogWrite_stores :: "uint16_t \<Rightarrow> uint16_t \<Rightarrow> state \<Rightarrow> (state \<Rightarrow> state) list" where
  "fakeAnalogWrite_stores p val s =
    (case slotOf p s of
       Some i \<Rightarrow> updateFound_stores i val s
     | None \<Rightarrow>
        (case freeSlot s of
           Some i \<Rightarrow> allocate_stores i p val
         | None \<Rightarrow> []))"

definition run :: "(state \<Rightarrow> state) list \<Rightarrow> state \<Rightarrow> state" where
  "run fs s = fold (\<lambda>f. f) fs s"

definition preempted :: "nat \<Rightarrow> uint16_t \<Rightarrow> uint16_t \<Rightarrow> state \<Rightarrow> state" where
  "preempted k p val s =
    (let fs = fakeAnalogWrite_stores p val s
     in run (drop k fs) (TimerHandler (run (take k fs) s)))"

section \<open>Facts about the model\<close>

subsection \<open>Small 16-bit values\<close>

text \<open>
  \<^verbatim>\<open>PWM_Value\<close> and \<^verbatim>\<open>countPWM\<close> stay at or below 256, where the signed and
  the unsigned reading of the 16 bits agree.
\<close>

lemma small_sint:
  fixes x :: "16 word"
  assumes "unat x \<le> 256" shows "sint x = int (unat x)"
proof -
  have le: "uint x \<le> 256" using assms by (metis of_nat_le_iff of_nat_numeral of_nat_unat)
  have a: "- (2 ^ 15 :: int) \<le> uint x" by (rule order_trans [OF _ uint_ge_0]) simp
  have b: "uint x < 2 ^ 15" using le by simp
  have "signed_take_bit 15 (uint x) = uint x"
    using a b by (rule signed_take_bit_int_eq_self)
  then show ?thesis by (simp add: sint_uint)
qed

lemma small_pos: "unat (x::16 word) \<le> 256 \<Longrightarrow> (0 <s x) = (x \<noteq> 0)"
  using small_sint[of x] by (simp add: word_sless_alt unat_gt_0 word_neq_0_conv word_less_def)

lemma small_nonneg: "unat (x::16 word) \<le> 256 \<Longrightarrow> 0 \<le>s x"
  using small_sint[of x] by (simp add: word_sle_eq)

lemma small_sint_less:
  fixes x :: "16 word"
  assumes "unat x < n" and "n \<le> 257"
  shows "0 \<le> sint x \<and> sint x < int n"
proof -
  have "sint x = int (unat x)" using assms by (intro small_sint) simp
  moreover have "int (unat x) < int n" using assms(1) by (simp only: of_nat_less_iff)
  moreover have "0 \<le> int (unat x)" by (rule of_nat_0_le_iff)
  ultimately show ?thesis by (simp only:)
qed

lemma small_sint_le:
  fixes x :: "16 word"
  assumes "unat x \<le> 256"
  shows "0 \<le> sint x \<and> sint x \<le> 256"
proof -
  have "0 \<le> sint x \<and> sint x < int 257"
    using assms by (intro small_sint_less) simp_all
  then show ?thesis by simp
qed

lemma nextCount_small:
  assumes "unat c < 256" shows "unat (nextCount c) = (unat c + 1) mod 256"
proof -
  have sc: "sint c = int (unat c)" using assms by (intro small_sint) simp
  have "sgn (int (unat c) + 1) = 1" by simp
  then have "(sint c + 1) smod 256 = int ((unat c + 1) mod 256)"
    unfolding sc signed_modulo_int_def by (simp add: zmod_int add.commute)
  then have "nextCount c = of_nat ((unat c + 1) mod 256)"
    by (simp add: nextCount_def MAX_PWM_VALUE_def)
  then show ?thesis by (simp add: unat_of_nat)
qed

lemma localValue_le: "unat (localValue v) \<le> 256"
  by (simp add: localValue_def MAX_PWM_VALUE_def word_less_nat_alt)

lemma localValue_small: "unat val < MAX_PWM_VALUE \<Longrightarrow> localValue val = val"
  by (simp add: localValue_def MAX_PWM_VALUE_def word_less_nat_alt)

subsection \<open>The searches of the request\<close>

text \<open>
  What the two loops of \<^verbatim>\<open>fakeAnalogWrite\<close> find: the least index that qualifies.
\<close>

lemma find_upt_Some:
  "find P [0..<n] = Some i \<longleftrightarrow> i < n \<and> P i \<and> (\<forall>j<i. \<not> P j)"
  by (auto simp: find_Some_iff)

lemma find_upt_None: "find P [0..<n] = None \<longleftrightarrow> (\<forall>i<n. \<not> P i)"
  by (auto simp: find_None_iff)

lemma slotOf_Some:
  "slotOf p s = Some i \<longleftrightarrow>
     i < NUMBER_ISR_TIMERS \<and> beingUsed (curISRTimerData s ! i) \<and> pin (curISRTimerData s ! i) = p \<and>
     (\<forall>j<i. \<not> (beingUsed (curISRTimerData s ! j) \<and> pin (curISRTimerData s ! j) = p))"
  unfolding slotOf_def find_upt_Some by simp

lemma slotOf_None:
  "slotOf p s = None \<longleftrightarrow>
     (\<forall>i<NUMBER_ISR_TIMERS. \<not> (beingUsed (curISRTimerData s ! i) \<and> pin (curISRTimerData s ! i) = p))"
  unfolding slotOf_def find_upt_None by simp

lemma freeSlot_Some:
  "freeSlot s = Some i \<longleftrightarrow>
     i < NUMBER_ISR_TIMERS \<and> \<not> beingUsed (curISRTimerData s ! i) \<and>
     (\<forall>j<i. beingUsed (curISRTimerData s ! j))"
  unfolding freeSlot_def find_upt_Some by simp

lemma freeSlot_None:
  "freeSlot s = None \<longleftrightarrow> (\<forall>i<NUMBER_ISR_TIMERS. beingUsed (curISRTimerData s ! i))"
  unfolding freeSlot_def find_upt_None by simp

lemma slotOf_cong:
  assumes "\<forall>j<NUMBER_ISR_TIMERS. beingUsed (curISRTimerData s' ! j) = beingUsed (curISRTimerData s ! j) \<and>
             pin (curISRTimerData s' ! j) = pin (curISRTimerData s ! j)"
  shows "slotOf p s' = slotOf p s"
  unfolding slotOf_def using assms by (intro find_cong) auto

lemma all_less_16: "(\<forall>i<NUMBER_ISR_TIMERS. P i) \<longleftrightarrow> list_all P [0..<NUMBER_ISR_TIMERS]"
  by (auto simp: list_all_iff)

subsection \<open>The tick as a whole\<close>

text \<open>
  One call of \<^verbatim>\<open>doingSomething\<close> is \<open>drive\<close> on the pins and \<open>stepData\<close> on its
  entry; the loop of \<^verbatim>\<open>TimerHandler\<close> is their fold over the table, and a pin held
  by one entry only is driven by that entry alone.
\<close>

lemma doingSomething_eq:
  "doingSomething i s =
     s\<lparr>pinLevel := drive (curISRTimerData s ! i) (pinLevel s),
       curISRTimerData := (curISRTimerData s)[i := stepData (curISRTimerData s ! i)]\<rparr>"
  by (simp add: doingSomething_def drive_def stepData_def digitalWrite_def Let_def)

lemma fold_doingSomething:
  "n \<le> length (curISRTimerData s) \<Longrightarrow>
   fold doingSomething [0..<n] s =
     s\<lparr>pinLevel := fold drive (take n (curISRTimerData s)) (pinLevel s),
       curISRTimerData := map stepData (take n (curISRTimerData s)) @ drop n (curISRTimerData s)\<rparr>"
proof (induction n)
  case 0
  then show ?case by simp
next
  case (Suc n)
  let ?t = "curISRTimerData s"
  have n: "n < length ?t" using Suc.prems by simp
  have nth: "(map stepData (take n ?t) @ drop n ?t) ! n = ?t ! n"
    using n by (simp add: nth_append)
  have upd: "(map stepData (take n ?t) @ drop n ?t)[n := stepData (?t ! n)]
             = map stepData (take (Suc n) ?t) @ drop (Suc n) ?t"
    using n by (simp add: list_update_append take_Suc_conv_app_nth upd_conv_take_nth_drop)
  show ?case
    using n Suc.IH nth upd by (simp add: doingSomething_eq take_Suc_conv_app_nth)
qed

lemma TimerHandler_table:
  "length (curISRTimerData s) = NUMBER_ISR_TIMERS \<Longrightarrow>
   curISRTimerData (TimerHandler s) = map stepData (curISRTimerData s)"
  by (simp add: TimerHandler_def fold_doingSomething Let_def digitalWrite_def)

lemma TimerHandler_level:
  "length (curISRTimerData s) = NUMBER_ISR_TIMERS \<Longrightarrow> p \<noteq> LED_BUILTIN \<Longrightarrow>
   pinLevel (TimerHandler s) p = fold drive (curISRTimerData s) (pinLevel s) p"
  by (simp add: TimerHandler_def fold_doingSomething Let_def digitalWrite_def)

lemma TimerHandler_statics:
  assumes "length (curISRTimerData s) = NUMBER_ISR_TIMERS"
  shows "timeRun (TimerHandler s) = (if timeRun s + 1 = 5000 then 0 else timeRun s + 1)"
    and "toggle (TimerHandler s) = (if timeRun s + 1 = 5000 then \<not> toggle s else toggle s)"
    and "timeRun s + 1 = 5000 \<Longrightarrow> pinLevel (TimerHandler s) LED_BUILTIN = toggle s"
  using assms
  by (simp_all add: TimerHandler_def fold_doingSomething Let_def digitalWrite_def
      LED_TOGGLE_INTERVAL_MS_def TIMER2_FREQUENCY_HZ_def)

lemma stepData_fields:
  "beingUsed (stepData d) = beingUsed d" "pin (stepData d) = pin d"
  "PWM_Value (stepData d) = PWM_Value d" "PWM_PremapValue (stepData d) = PWM_PremapValue d"
  "countPWM (stepData d) = nextCount (countPWM d)"
  by (simp_all add: stepData_def)

lemma drive_other: "pin d \<noteq> p \<Longrightarrow> drive d lv p = lv p"
  by (simp add: drive_def)

lemma drive_unused: "\<not> beingUsed d \<Longrightarrow> drive d lv = lv"
  by (simp add: drive_def)

lemma drive_pin0: "drive d lv 0 = lv 0"
  by (simp add: drive_def)

lemma drive_duty0: "PWM_Value d = 0 \<Longrightarrow> drive d lv = lv"
  by (simp add: drive_def)

lemma drive_cong_pin: "lv (pin d) = lv' (pin d) \<Longrightarrow> drive d lv (pin d) = drive d lv' (pin d)"
  by (auto simp: drive_def)

lemma fold_drive_skip:
  "(\<forall>d\<in>set ds. beingUsed d \<longrightarrow> pin d \<noteq> p) \<Longrightarrow> fold drive ds lv p = lv p"
proof (induction ds arbitrary: lv)
  case Nil
  then show ?case by simp
next
  case (Cons d ds)
  have "drive d lv p = lv p"
    using Cons.prems by (cases "beingUsed d") (simp_all add: drive_other drive_unused)
  with Cons show ?case by simp
qed

lemma fold_drive_pin0: "fold drive ds lv 0 = lv 0"
  by (induction ds arbitrary: lv) (simp_all add: drive_pin0)

lemma fold_drive_one:
  assumes i: "i < length t" and p: "pin (t ! i) = p"
    and uniq: "\<forall>j<length t. j \<noteq> i \<longrightarrow> beingUsed (t ! j) \<longrightarrow> pin (t ! j) \<noteq> p"
  shows "fold drive t lv p = drive (t ! i) lv p"
proof -
  have split: "t = take i t @ t ! i # drop (Suc i) t"
    using i by (rule id_take_nth_drop)
  have before: "\<forall>d\<in>set (take i t). beingUsed d \<longrightarrow> pin d \<noteq> p"
  proof (intro ballI impI)
    fix d assume "d \<in> set (take i t)" and used: "beingUsed d"
    then obtain j where "j < i" and "d = t ! j"
      using i by (auto simp: in_set_conv_nth)
    with uniq i used show "pin d \<noteq> p" by auto
  qed
  have after: "\<forall>d\<in>set (drop (Suc i) t). beingUsed d \<longrightarrow> pin d \<noteq> p"
  proof (intro ballI impI)
    fix d assume "d \<in> set (drop (Suc i) t)" and used: "beingUsed d"
    then obtain j where "j < length t - Suc i" and "d = t ! (Suc i + j)"
      by (auto simp: in_set_conv_nth)
    then have "Suc i + j < length t" and "Suc i + j \<noteq> i" and "beingUsed (t ! (Suc i + j))"
      using used by auto
    with uniq have "pin (t ! (Suc i + j)) \<noteq> p" by blast
    with \<open>d = t ! (Suc i + j)\<close> show "pin d \<noteq> p" by simp
  qed
  have "fold drive t lv p
        = fold drive (drop (Suc i) t) (drive (t ! i) (fold drive (take i t) lv)) p"
    by (subst split) simp
  also have "\<dots> = drive (t ! i) (fold drive (take i t) lv) p"
    using after by (rule fold_drive_skip)
  also have "\<dots> = drive (t ! i) lv p"
    using fold_drive_skip [OF before, of lv] drive_cong_pin [of "fold drive (take i t) lv" "t ! i" lv] p
    by simp
  finally show ?thesis .
qed

lemma TimerHandler_pin0:
  "length (curISRTimerData s) = NUMBER_ISR_TIMERS \<Longrightarrow> pinLevel (TimerHandler s) 0 = pinLevel s 0"
  by (simp add: TimerHandler_level LED_BUILTIN_def fold_drive_pin0)

subsection \<open>What a tick leaves alone\<close>

text \<open>
  A field that \<open>stepData\<close> does not touch is the same in every entry after any
  number of ticks.
\<close>

lemma map_update_same:
  assumes "f x = f (t ! i)" shows "map f (t[i := x]) = map f t"
proof (cases "i < length t")
  case True
  with assms have "(map f t)[i := f x] = map f t" by (simp add: list_update_same_conv)
  then show ?thesis by (simp add: map_update)
next
  case False
  then show ?thesis by (simp add: list_update_beyond)
qed

lemma doingSomething_frame_map:
  assumes "\<And>d. f (stepData d) = f d"
  shows "map f (curISRTimerData (doingSomething i s)) = map f (curISRTimerData s)"
  using assms by (simp add: doingSomething_eq map_update_same)

lemma fold_doingSomething_frame_map:
  assumes "\<And>d. f (stepData d) = f d"
  shows "map f (curISRTimerData (fold doingSomething js s)) = map f (curISRTimerData s)"
  using assms by (induction js arbitrary: s) (simp_all add: doingSomething_frame_map)

lemma TimerHandler_table_fold:
  "curISRTimerData (TimerHandler s) = curISRTimerData (fold doingSomething [0..<NUMBER_ISR_TIMERS] s)"
  by (simp add: TimerHandler_def Let_def digitalWrite_def)

lemma TimerHandler_frame_map:
  assumes "\<And>d. f (stepData d) = f d"
  shows "map f (curISRTimerData (TimerHandler s)) = map f (curISRTimerData s)"
  unfolding TimerHandler_table_fold using assms by (rule fold_doingSomething_frame_map)

lemma funpow_TimerHandler_frame_map:
  assumes "\<And>d. f (stepData d) = f d"
  shows "map f (curISRTimerData ((TimerHandler ^^ n) s)) = map f (curISRTimerData s)"
  using assms by (induction n) (simp_all add: TimerHandler_frame_map)

lemma map_eq_nth:
  assumes "map f t' = map f t" and "j < length t"
  shows "f (t' ! j) = f (t ! j)"
proof -
  have "length t' = length t" using assms(1) by (rule map_eq_imp_length_eq)
  then have "map f t' ! j = f (t' ! j)" and "map f t ! j = f (t ! j)"
    using assms(2) by simp_all
  then show ?thesis using assms(1) by simp
qed

subsection \<open>What a request does\<close>

text \<open>
  The branches of \<^verbatim>\<open>fakeAnalogWrite\<close>, each as one update of the table.
\<close>

lemma updateFound_nonneg:
  assumes "unat (PWM_Value (curISRTimerData s ! i)) \<le> 256"
  shows "updateFound i val s =
     (if PWM_PremapValue (curISRTimerData s ! i) = localValue val then s
      else s\<lparr>curISRTimerData := (curISRTimerData s)
              [i := (curISRTimerData s ! i)\<lparr>PWM_PremapValue := localValue val,
                      PWM_Value := localValue val, countPWM := 0\<rparr>]\<rparr>)"
  using small_nonneg [OF assms] by (simp add: updateFound_def Let_def)

lemma updateFound_same:
  "PWM_PremapValue (curISRTimerData s ! i) = localValue val \<Longrightarrow> updateFound i val s = s"
  by (simp add: updateFound_def Let_def)

lemma updateFound_keeps_used:
  assumes "0 \<le>s PWM_Value (curISRTimerData s ! i)" and "j < length (curISRTimerData s)"
    and "beingUsed (curISRTimerData s ! j)"
  shows "beingUsed (curISRTimerData (updateFound i val s) ! j)"
  using assms by (cases "i = j") (simp_all add: updateFound_def Let_def)

lemma updateFound_count:
  "j < length (curISRTimerData s) \<Longrightarrow>
   countPWM (curISRTimerData (updateFound i val s) ! j) = countPWM (curISRTimerData s ! j) \<or>
   countPWM (curISRTimerData (updateFound i val s) ! j) = 0"
  by (cases "i = j") (simp_all add: updateFound_def Let_def)

lemma allocate_slot:
  assumes "i < length (curISRTimerData s)"
  shows "beingUsed (curISRTimerData (allocate i p val s) ! i) \<and>
         pin (curISRTimerData (allocate i p val s) ! i) = p \<and>
         PWM_Value (curISRTimerData (allocate i p val s) ! i) = localValue val \<and>
         countPWM (curISRTimerData (allocate i p val s) ! i) = 0"
  using assms by (simp add: allocate_def Let_def pinMode_OUTPUT_def)


lemma allocate_length:
  "length (curISRTimerData (allocate i p val s)) = length (curISRTimerData s)"
  by (simp add: allocate_def Let_def pinMode_OUTPUT_def)

lemma allocate_keeps_used:
  assumes "j < length (curISRTimerData s)" and "beingUsed (curISRTimerData s ! j)"
  shows "beingUsed (curISRTimerData (allocate i p val s) ! j)"
  using assms by (cases "i = j") (simp_all add: allocate_def Let_def pinMode_OUTPUT_def)

lemma allocate_count:
  "j < length (curISRTimerData s) \<Longrightarrow>
   countPWM (curISRTimerData (allocate i p val s) ! j) = countPWM (curISRTimerData s ! j) \<or>
   countPWM (curISRTimerData (allocate i p val s) ! j) = 0"
  by (cases "i = j") (simp_all add: allocate_def Let_def pinMode_OUTPUT_def)

lemma fakeAnalogWrite_count:
  "j < length (curISRTimerData s) \<Longrightarrow>
   countPWM (curISRTimerData (fakeAnalogWrite p val s) ! j) = countPWM (curISRTimerData s ! j) \<or>
   countPWM (curISRTimerData (fakeAnalogWrite p val s) ! j) = 0"
  by (simp add: fakeAnalogWrite_def updateFound_count allocate_count split: option.splits)

lemma fakeAnalogWrite_pinLevel: "pinLevel (fakeAnalogWrite p val s) = pinLevel s"
  by (simp add: fakeAnalogWrite_def updateFound_def allocate_def pinMode_OUTPUT_def Let_def
      split: option.splits)

lemma fakeAnalogWrite_statics:
  "timeRun (fakeAnalogWrite p val s) = timeRun s" "toggle (fakeAnalogWrite p val s) = toggle s"
  by (simp_all add: fakeAnalogWrite_def updateFound_def allocate_def pinMode_OUTPUT_def Let_def
      split: option.splits)

subsection \<open>The invariants hold in every reachable state\<close>

text \<open>
  Each invariant holds after \<^verbatim>\<open>setup\<close> and is kept by a tick and by a request.
\<close>

lemma slotInv_stepData: "slotInv d \<Longrightarrow> slotInv (stepData d)"
  by (simp add: slotInv_def stepData_def nextCount_small MAX_PWM_VALUE_def)

lemma tableInv_TimerHandler:
  assumes "tableInv s" shows "tableInv (TimerHandler s)"
proof -
  have len: "length (curISRTimerData s) = NUMBER_ISR_TIMERS"
    using assms by (simp add: tableInv_def)
  have t: "curISRTimerData (TimerHandler s) = map stepData (curISRTimerData s)"
    using len by (rule TimerHandler_table)
  show ?thesis
    using assms unfolding tableInv_def t
    by (auto simp: slotInv_stepData stepData_fields)
qed

lemma tableInv_after_setup: "tableInv after_setup"
  by (simp add: tableInv_def after_setup_def slotInv_def zeroData_def MAX_PWM_VALUE_def)

lemma levelInv_after_setup: "levelInv after_setup"
  by (simp add: levelInv_def after_setup_def zeroData_def)

lemma TimerHandler_level_bound:
  assumes inv: "tableInv s" and i: "i < NUMBER_ISR_TIMERS"
    and used: "beingUsed (curISRTimerData s ! i)" and p: "pin (curISRTimerData s ! i) = p"
    and led: "p \<noteq> LED_BUILTIN"
  shows "pinLevel (TimerHandler s) p = drive (curISRTimerData s ! i) (pinLevel s) p"
proof -
  let ?t = "curISRTimerData s"
  have len: "length ?t = NUMBER_ISR_TIMERS" using inv by (simp add: tableInv_def)
  have uniq: "\<forall>j<length ?t. j \<noteq> i \<longrightarrow> beingUsed (?t ! j) \<longrightarrow> pin (?t ! j) \<noteq> p"
    using inv i used p unfolding tableInv_def by metis
  have "pinLevel (TimerHandler s) p = fold drive ?t (pinLevel s) p"
    using len led by (rule TimerHandler_level)
  also have "\<dots> = drive (?t ! i) (pinLevel s) p"
    using i len p uniq by (intro fold_drive_one) simp_all
  finally show ?thesis .
qed

lemma tick_level:
  assumes inv: "tableInv s" and lev: "levelInv s" and i: "i < NUMBER_ISR_TIMERS"
    and used: "beingUsed (curISRTimerData s ! i)" and p: "pin (curISRTimerData s ! i) = p"
    and p0: "p \<noteq> 0" and led: "p \<noteq> LED_BUILTIN"
    and v0: "PWM_Value (curISRTimerData s ! i) \<noteq> 0"
  shows "pinLevel (TimerHandler s) p
         = (unat (countPWM (curISRTimerData s ! i)) < unat (PWM_Value (curISRTimerData s ! i)))"
proof -
  let ?d = "curISRTimerData s ! i"
  have mem: "?d \<in> set (curISRTimerData s)"
    using inv i by (simp add: tableInv_def)
  then have sl: "slotInv ?d" using inv by (simp add: tableInv_def)
  then have small: "unat (PWM_Value ?d) \<le> 256" by (simp add: slotInv_def MAX_PWM_VALUE_def)
  have pos: "0 <s PWM_Value ?d" using small v0 by (simp add: small_pos)
  have eq: "pinLevel (TimerHandler s) p = drive ?d (pinLevel s) p"
    using inv i used p led by (rule TimerHandler_level_bound)
  show ?thesis
  proof (cases "countPWM ?d = 0")
    case True
    then show ?thesis using eq pos used p p0 v0 by (simp add: drive_def unat_gt_0)
  next
    case c0: False
    show ?thesis
    proof (cases "countPWM ?d = PWM_Value ?d")
      case True
      then show ?thesis using eq pos used p p0 c0 by (simp add: drive_def)
    next
      case False
      then have ne: "unat (countPWM ?d) \<noteq> unat (PWM_Value ?d)"
        by (simp add: word_unat_eq_iff)
      have "pinLevel s p = (unat (countPWM ?d) \<le> unat (PWM_Value ?d))"
        using lev mem used v0 p p0 led c0 unfolding levelInv_def by blast
      then show ?thesis using eq pos used p p0 c0 False ne by (auto simp: drive_def)
    qed
  qed
qed

lemma levelInv_TimerHandler:
  assumes inv: "tableInv s" and lev: "levelInv s"
  shows "levelInv (TimerHandler s)"
  unfolding levelInv_def
proof (intro ballI impI)
  fix d'
  assume d': "d' \<in> set (curISRTimerData (TimerHandler s))"
    and h: "beingUsed d' \<and> PWM_Value d' \<noteq> 0 \<and> pin d' \<noteq> 0 \<and> pin d' \<noteq> LED_BUILTIN \<and> countPWM d' \<noteq> 0"
  let ?t = "curISRTimerData s"
  have len: "length ?t = NUMBER_ISR_TIMERS" using inv by (simp add: tableInv_def)
  have "d' \<in> set (map stepData ?t)" using d' len by (simp add: TimerHandler_table)
  then obtain i where i: "i < NUMBER_ISR_TIMERS" and d'_eq: "d' = stepData (?t ! i)"
    using len by (auto simp: in_set_conv_nth)
  let ?d = "?t ! i"
  have sl: "slotInv ?d" using inv i len by (simp add: tableInv_def)
  then have c: "unat (countPWM ?d) < 256" by (simp add: slotInv_def MAX_PWM_VALUE_def)
  have nc: "unat (nextCount (countPWM ?d)) = (unat (countPWM ?d) + 1) mod 256"
    using c by (rule nextCount_small)
  have "unat (nextCount (countPWM ?d)) \<noteq> 0"
    using h d'_eq by (simp add: stepData_fields unat_eq_0)
  then have nc': "unat (nextCount (countPWM ?d)) = unat (countPWM ?d) + 1"
    using nc c by (simp add: mod_Suc split: if_splits)
  have "pinLevel (TimerHandler s) (pin ?d) = (unat (countPWM ?d) < unat (PWM_Value ?d))"
    using h d'_eq by (intro tick_level [OF inv lev i]) (simp_all add: stepData_fields)
  then show "pinLevel (TimerHandler s) (pin d') = (unat (countPWM d') \<le> unat (PWM_Value d'))"
    using nc' d'_eq by (auto simp: stepData_fields)
qed

lemma tableInv_update:
  assumes inv: "tableInv s" and i: "i < NUMBER_ISR_TIMERS" and sl: "slotInv d'"
    and uniq: "beingUsed d' \<longrightarrow>
      (\<forall>j<NUMBER_ISR_TIMERS. j \<noteq> i \<longrightarrow> beingUsed (curISRTimerData s ! j) \<longrightarrow> pin (curISRTimerData s ! j) \<noteq> pin d')"
    and t': "curISRTimerData s' = (curISRTimerData s)[i := d']"
  shows "tableInv s'"
proof -
  let ?t = "curISRTimerData s"
  have len: "length ?t = NUMBER_ISR_TIMERS" using inv by (simp add: tableInv_def)
  have slots: "\<forall>d\<in>set (?t[i := d']). slotInv d"
    using inv sl set_update_subset_insert [of ?t i d'] by (auto simp: tableInv_def)
  have u: "\<forall>a<NUMBER_ISR_TIMERS. \<forall>b<NUMBER_ISR_TIMERS.
        beingUsed (?t[i := d'] ! a) \<and> beingUsed (?t[i := d'] ! b) \<and>
        pin (?t[i := d'] ! a) = pin (?t[i := d'] ! b) \<longrightarrow> a = b"
  proof (intro allI impI)
    fix a b
    assume a: "a < NUMBER_ISR_TIMERS" and b: "b < NUMBER_ISR_TIMERS"
      and h: "beingUsed (?t[i := d'] ! a) \<and> beingUsed (?t[i := d'] ! b) \<and>
              pin (?t[i := d'] ! a) = pin (?t[i := d'] ! b)"
    show "a = b"
    proof (cases "a = i")
      case ai: True
      show ?thesis
      proof (cases "b = i")
        case True with ai show ?thesis by simp
      next
        case False
        with ai h a b i len uniq show ?thesis by (auto simp: nth_list_update)
      qed
    next
      case ai: False
      show ?thesis
      proof (cases "b = i")
        case True
        with ai h a b i len uniq show ?thesis by (auto simp: nth_list_update)
      next
        case False
        with ai h a b inv show ?thesis unfolding tableInv_def by (simp add: nth_list_update)
      qed
    qed
  qed
  show ?thesis unfolding tableInv_def t' using len slots u by simp
qed

lemma levelInv_update:
  assumes lev: "levelInv s" and c: "countPWM d' = 0"
    and t': "curISRTimerData s' = (curISRTimerData s)[i := d']"
    and l': "pinLevel s' = pinLevel s"
  shows "levelInv s'"
  using lev c set_update_subset_insert [of "curISRTimerData s" i d']
  unfolding levelInv_def t' l' by auto

lemma tableInv_fakeAnalogWrite:
  assumes inv: "tableInv s" shows "tableInv (fakeAnalogWrite p val s)"
proof (cases "slotOf p s")
  case (Some i)
  let ?t = "curISRTimerData s"
  have i: "i < NUMBER_ISR_TIMERS" and used: "beingUsed (?t ! i)" and pi: "pin (?t ! i) = p"
    using Some by (simp_all add: slotOf_Some)
  have len: "length ?t = NUMBER_ISR_TIMERS" using inv by (simp add: tableInv_def)
  have sl: "slotInv (?t ! i)" using inv i len by (simp add: tableInv_def)
  then have small: "unat (PWM_Value (?t ! i)) \<le> 256" by (simp add: slotInv_def MAX_PWM_VALUE_def)
  let ?d' = "(?t ! i)\<lparr>PWM_PremapValue := localValue val, PWM_Value := localValue val, countPWM := 0\<rparr>"
  have sl': "slotInv ?d'"
    using sl used localValue_le [of val] by (simp add: slotInv_def MAX_PWM_VALUE_def)
  have uniq: "beingUsed ?d' \<longrightarrow>
      (\<forall>j<NUMBER_ISR_TIMERS. j \<noteq> i \<longrightarrow> beingUsed (?t ! j) \<longrightarrow> pin (?t ! j) \<noteq> pin ?d')"
    using inv i used unfolding tableInv_def by (simp, metis)
  have "tableInv (s\<lparr>curISRTimerData := ?t[i := ?d']\<rparr>)"
    using inv i sl' uniq by (rule tableInv_update) simp
  then show ?thesis
    using Some inv by (simp add: fakeAnalogWrite_def updateFound_nonneg [OF small])
next
  case None
  show ?thesis
  proof (cases "freeSlot s")
    case fNone: None
    with None inv show ?thesis by (simp add: fakeAnalogWrite_def)
  next
    case (Some i)
    let ?t = "curISRTimerData s"
    have i: "i < NUMBER_ISR_TIMERS" and unused: "\<not> beingUsed (?t ! i)"
      using Some by (simp_all add: freeSlot_Some)
    have len: "length ?t = NUMBER_ISR_TIMERS" using inv by (simp add: tableInv_def)
    have sl: "slotInv (?t ! i)" using inv i len by (simp add: tableInv_def)
    obtain d' where d': "curISRTimerData (allocate i p val s) = ?t[i := d']"
      and used': "beingUsed d'" and pin': "pin d' = p" and c': "countPWM d' = 0"
      and v': "PWM_Value d' = localValue val"
      and pm': "PWM_PremapValue d' = localValue val \<or>
                PWM_PremapValue d' = PWM_PremapValue (?t ! i) \<and> (localValue val = 0 \<or> localValue val = 255)"
      by (simp add: allocate_def Let_def pinMode_OUTPUT_def MAX_PWM_VALUE_def)
    have sl': "slotInv d'"
      using sl unused used' c' v' pm' localValue_le [of val]
      by (auto simp: slotInv_def MAX_PWM_VALUE_def)
    have uniq: "beingUsed d' \<longrightarrow>
      (\<forall>j<NUMBER_ISR_TIMERS. j \<noteq> i \<longrightarrow> beingUsed (?t ! j) \<longrightarrow> pin (?t ! j) \<noteq> pin d')"
      using None pin' by (auto simp: slotOf_None)
    have "tableInv (allocate i p val s)"
      using inv i sl' uniq d' by (rule tableInv_update)
    then show ?thesis using None Some by (simp add: fakeAnalogWrite_def)
  qed
qed

lemma levelInv_fakeAnalogWrite:
  assumes inv: "tableInv s" and lev: "levelInv s"
  shows "levelInv (fakeAnalogWrite p val s)"
proof (cases "slotOf p s")
  case (Some i)
  let ?t = "curISRTimerData s"
  have i: "i < NUMBER_ISR_TIMERS" using Some by (simp_all add: slotOf_Some)
  have len: "length ?t = NUMBER_ISR_TIMERS" using inv by (simp add: tableInv_def)
  have sl: "slotInv (?t ! i)" using inv i len by (simp add: tableInv_def)
  then have small: "unat (PWM_Value (?t ! i)) \<le> 256" by (simp add: slotInv_def MAX_PWM_VALUE_def)
  let ?d' = "(?t ! i)\<lparr>PWM_PremapValue := localValue val, PWM_Value := localValue val, countPWM := 0\<rparr>"
  have "levelInv (s\<lparr>curISRTimerData := ?t[i := ?d']\<rparr>)"
    using lev by (rule levelInv_update) simp_all
  then show ?thesis
    using Some lev by (simp add: fakeAnalogWrite_def updateFound_nonneg [OF small])
next
  case None
  show ?thesis
  proof (cases "freeSlot s")
    case fNone: None
    with None lev show ?thesis by (simp add: fakeAnalogWrite_def)
  next
    case (Some i)
    have "levelInv (allocate i p val s)"
      using lev by (rule levelInv_update [where i = i])
        (simp_all add: allocate_def Let_def pinMode_OUTPUT_def)
    then show ?thesis using None Some by (simp add: fakeAnalogWrite_def)
  qed
qed

lemma reachable_inv: "reachable s \<Longrightarrow> tableInv s \<and> levelInv s"
proof (induction rule: reachable.induct)
  case init
  show ?case by (simp add: tableInv_after_setup levelInv_after_setup)
next
  case (request s p val)
  then show ?case by (simp add: tableInv_fakeAnalogWrite levelInv_fakeAnalogWrite)
next
  case (tick s)
  then show ?case by (simp add: tableInv_TimerHandler levelInv_TimerHandler)
qed

lemma reachable_slotInv:
  assumes "reachable s" and "i < NUMBER_ISR_TIMERS"
  shows "slotInv (curISRTimerData s ! i)" and "length (curISRTimerData s) = NUMBER_ISR_TIMERS"
  using reachable_inv [OF assms(1)] assms(2) by (simp_all add: tableInv_def)

lemma reachable_funpow: "reachable s \<Longrightarrow> reachable ((TimerHandler ^^ n) s)"
  by (induction n) (simp_all add: reachable.tick)

lemma funpow_TimerHandler_inv:
  "tableInv s \<Longrightarrow> levelInv s \<Longrightarrow> tableInv ((TimerHandler ^^ n) s) \<and> levelInv ((TimerHandler ^^ n) s)"
  by (induction n) (simp_all add: tableInv_TimerHandler levelInv_TimerHandler)

lemma tableInv_unique:
  assumes "tableInv s" and "i < NUMBER_ISR_TIMERS" and "j < NUMBER_ISR_TIMERS"
    and "beingUsed (curISRTimerData s ! i)" and "beingUsed (curISRTimerData s ! j)"
    and "pin (curISRTimerData s ! i) = pin (curISRTimerData s ! j)"
  shows "i = j"
  using assms unfolding tableInv_def by blast

lemma slotOf_unique:
  assumes inv: "tableInv s" and a: "slotOf p s = Some i"
    and k: "k < NUMBER_ISR_TIMERS" and u: "beingUsed (curISRTimerData s ! k)"
    and pk: "pin (curISRTimerData s ! k) = p"
  shows "k = i"
  using inv a k u pk unfolding tableInv_def slotOf_Some by blast

lemma request_stores:
  assumes r: "reachable s" and b: "slotOf p (fakeAnalogWrite p val s) = Some i"
  shows "PWM_Value (curISRTimerData (fakeAnalogWrite p val s) ! i) = localValue val \<or>
         localValue val = 0 \<and> PWM_Value (curISRTimerData (fakeAnalogWrite p val s) ! i) = 255"
proof -
  let ?t = "curISRTimerData s"
  let ?s1 = "fakeAnalogWrite p val s"
  have inv: "tableInv s" using reachable_inv [OF r] by simp
  have inv1: "tableInv ?s1" using inv by (rule tableInv_fakeAnalogWrite)
  have len: "length ?t = NUMBER_ISR_TIMERS" using inv by (simp add: tableInv_def)
  have i: "i < NUMBER_ISR_TIMERS" using b by (simp add: slotOf_Some)
  show ?thesis
  proof (cases "slotOf p s")
    case (Some k)
    then have k: "k < NUMBER_ISR_TIMERS" and uk: "beingUsed (?t ! k)" and pk: "pin (?t ! k) = p"
      by (simp_all add: slotOf_Some)
    have sl: "slotInv (?t ! k)" using inv k len by (simp add: tableInv_def)
    then have small: "unat (PWM_Value (?t ! k)) \<le> 256" by (simp add: slotInv_def MAX_PWM_VALUE_def)
    have s1: "?s1 = (if PWM_PremapValue (?t ! k) = localValue val then s
      else s\<lparr>curISRTimerData := ?t[k := (?t ! k)\<lparr>PWM_PremapValue := localValue val,
                      PWM_Value := localValue val, countPWM := 0\<rparr>]\<rparr>)"
      using Some small by (simp add: fakeAnalogWrite_def updateFound_nonneg)
    have "beingUsed (curISRTimerData ?s1 ! k) \<and> pin (curISRTimerData ?s1 ! k) = p"
      using uk pk k len by (simp add: s1)
    then have "k = i" using slotOf_unique [OF inv1 b k] by simp
    then show ?thesis using sl k len by (auto simp: s1 slotInv_def)
  next
    case None
    show ?thesis
    proof (cases "freeSlot s")
      case fNone: None
      with None b show ?thesis by (simp add: fakeAnalogWrite_def)
    next
      case (Some k)
      then have k: "k < NUMBER_ISR_TIMERS" by (simp add: freeSlot_Some)
      have s1: "?s1 = allocate k p val s" using None Some by (simp add: fakeAnalogWrite_def)
      have al: "beingUsed (curISRTimerData ?s1 ! k) \<and> pin (curISRTimerData ?s1 ! k) = p \<and>
                PWM_Value (curISRTimerData ?s1 ! k) = localValue val"
        unfolding s1 using allocate_slot [of k s p val] k len by simp
      then have "k = i" using slotOf_unique [OF inv1 b k] by simp
      then show ?thesis using al by simp
    qed
  qed
qed

lemma reachable_pin0_low: "reachable s \<Longrightarrow> \<not> pinLevel s 0"
proof (induction rule: reachable.induct)
  case init
  show ?case by (simp add: after_setup_def)
next
  case (request s p val)
  then show ?case by (simp add: fakeAnalogWrite_pinLevel)
next
  case (tick s)
  have "length (curISRTimerData s) = NUMBER_ISR_TIMERS"
    using reachable_inv [OF tick.hyps] by (simp add: tableInv_def)
  then show ?case using tick.IH by (simp add: TimerHandler_pin0)
qed

subsection \<open>Counting over a period\<close>

text \<open>
  Among any \<open>N\<close> consecutive numbers exactly \<open>v\<close> have a remainder below \<open>v\<close>
  modulo \<open>N\<close>.
\<close>

lemma length_filter_less: "length (filter (\<lambda>k. k < v) [0..<N]) = min v N"
  by (induction N) auto

lemma length_filter_shift:
  "length (filter (\<lambda>k. P (Suc k)) [0..<N]) = length (filter P [Suc 0..<Suc N])"
proof -
  have "filter (\<lambda>k. P (Suc k)) [0..<N] = filter (P \<circ> Suc) [0..<N]" by (simp add: comp_def)
  then have "length (filter (\<lambda>k. P (Suc k)) [0..<N]) = length (filter P (map Suc [0..<N]))"
    by (simp add: filter_map)
  then show ?thesis by (simp add: map_Suc_upt)
qed

lemma window_count:
  assumes "v \<le> N" and "0 < N"
  shows "length (filter (\<lambda>k. (c + k) mod N < v) [0..<N]) = v"
proof (induction c)
  case 0
  have "filter (\<lambda>k. (0 + k) mod N < v) [0..<N] = filter (\<lambda>k. k < v) [0..<N]"
    by (rule filter_cong) simp_all
  then show ?case using assms by (simp add: length_filter_less)
next
  case (Suc c)
  let ?P = "\<lambda>k. (c + k) mod N < v"
  have "length (filter (\<lambda>k. (Suc c + k) mod N < v) [0..<N])
        = length (filter (\<lambda>k. ?P (Suc k)) [0..<N])" by simp
  also have "\<dots> = length (filter ?P [Suc 0..<Suc N])" by (rule length_filter_shift)
  also have "\<dots> = length (filter ?P [Suc 0..<N]) + (if ?P N then 1 else 0)"
    using assms by simp
  also have "\<dots> = length (filter ?P [Suc 0..<N]) + (if ?P 0 then 1 else 0)" by simp
  also have "\<dots> = length (filter ?P [0..<N])"
    using assms by (simp add: upt_conv_Cons)
  finally show ?case using Suc.IH by simp
qed

subsection \<open>The wave on a driven pin\<close>

text \<open>
  For an entry in use with a duty above 0 and a pin other than 0 and
  \<^verbatim>\<open>LED_BUILTIN\<close>: the pin is high after a tick exactly when the counter before
  the tick was below the duty, so any \<^verbatim>\<open>MAX_PWM_VALUE\<close> consecutive ticks have the
  duty as their number of high ticks.
\<close>

lemma count_after_ticks:
  assumes inv: "tableInv s" and i: "i < NUMBER_ISR_TIMERS"
  shows "unat (countPWM (curISRTimerData ((TimerHandler ^^ n) s) ! i))
         = (unat (countPWM (curISRTimerData s ! i)) + n) mod 256"
proof (induction n)
  case 0
  have "slotInv (curISRTimerData s ! i)" using inv i by (simp add: tableInv_def)
  then show ?case by (simp add: slotInv_def MAX_PWM_VALUE_def)
next
  case (Suc n)
  let ?sn = "(TimerHandler ^^ n) s"
  have invn: "tableInv ?sn"
    using inv by (induction n) (simp_all add: tableInv_TimerHandler)
  then have len: "length (curISRTimerData ?sn) = NUMBER_ISR_TIMERS"
    and sl: "slotInv (curISRTimerData ?sn ! i)"
    using i by (simp_all add: tableInv_def)
  have c: "unat (countPWM (curISRTimerData ?sn ! i)) < 256"
    using sl by (simp add: slotInv_def MAX_PWM_VALUE_def)
  have "curISRTimerData (TimerHandler ?sn) ! i = stepData (curISRTimerData ?sn ! i)"
    using len i by (simp add: TimerHandler_table)
  then have "unat (countPWM (curISRTimerData ((TimerHandler ^^ Suc n) s) ! i))
             = (unat (countPWM (curISRTimerData ?sn ! i)) + 1) mod 256"
    using nextCount_small [OF c] by (simp add: stepData_fields)
  then show ?case unfolding Suc.IH by (simp add: mod_Suc_eq)
qed

lemma pwm_wave:
  assumes inv: "tableInv s" and lev: "levelInv s" and i: "i < NUMBER_ISR_TIMERS"
    and used: "beingUsed (curISRTimerData s ! i)" and p: "pin (curISRTimerData s ! i) = p"
    and p0: "p \<noteq> 0" and led: "p \<noteq> LED_BUILTIN"
    and v: "PWM_Value (curISRTimerData s ! i) = v" and v0: "v \<noteq> 0"
  shows "pinLevel ((TimerHandler ^^ Suc n) s) p
           = (unat (countPWM (curISRTimerData ((TimerHandler ^^ n) s) ! i)) < unat v)"
    and "highTicks p MAX_PWM_VALUE ((TimerHandler ^^ n) s) = unat v"
proof -
  let ?c0 = "unat (countPWM (curISRTimerData s ! i))"
  have len: "length (curISRTimerData s) = NUMBER_ISR_TIMERS"
    using inv by (simp add: tableInv_def)
  have vle: "unat v \<le> 256"
    using inv i v len by (auto simp: tableInv_def slotInv_def MAX_PWM_VALUE_def)
  have level: "pinLevel ((TimerHandler ^^ Suc m) s) p
                 = (unat (countPWM (curISRTimerData ((TimerHandler ^^ m) s) ! i)) < unat v)" for m
  proof -
    let ?sm = "(TimerHandler ^^ m) s"
    have invm: "tableInv ?sm" and levm: "levelInv ?sm"
      using funpow_TimerHandler_inv [OF inv lev] by simp_all
    have um: "beingUsed (curISRTimerData ?sm ! i) = beingUsed (curISRTimerData s ! i)"
      using len i by (intro map_eq_nth funpow_TimerHandler_frame_map) (simp_all add: stepData_fields)
    have pm: "pin (curISRTimerData ?sm ! i) = pin (curISRTimerData s ! i)"
      using len i by (intro map_eq_nth funpow_TimerHandler_frame_map) (simp_all add: stepData_fields)
    have vm: "PWM_Value (curISRTimerData ?sm ! i) = PWM_Value (curISRTimerData s ! i)"
      using len i by (intro map_eq_nth funpow_TimerHandler_frame_map) (simp_all add: stepData_fields)
    have "pinLevel (TimerHandler ?sm) p
          = (unat (countPWM (curISRTimerData ?sm ! i)) < unat (PWM_Value (curISRTimerData ?sm ! i)))"
      using invm levm i used p p0 led v v0 um pm vm by (intro tick_level) simp_all
    then show ?thesis using vm v by simp
  qed
  show "pinLevel ((TimerHandler ^^ Suc n) s) p
           = (unat (countPWM (curISRTimerData ((TimerHandler ^^ n) s) ! i)) < unat v)"
    by (rule level)
  have "pinLevel ((TimerHandler ^^ Suc k) ((TimerHandler ^^ n) s)) p = ((?c0 + n + k) mod 256 < unat v)" for k
  proof -
    have "(TimerHandler ^^ Suc k) ((TimerHandler ^^ n) s) = (TimerHandler ^^ Suc (n + k)) s"
      by (simp add: funpow_add add.commute)
    then show ?thesis
      using level [of "n + k"] count_after_ticks [OF inv i, of "n + k"] by (simp add: add.assoc)
  qed
  then have "highTicks p MAX_PWM_VALUE ((TimerHandler ^^ n) s)
             = length (filter (\<lambda>k. ((?c0 + n) + k) mod 256 < unat v) [0..<256])"
    unfolding highTicks_def MAX_PWM_VALUE_def by simp
  also have "\<dots> = unat v" using vle by (intro window_count) simp_all
  finally show "highTicks p MAX_PWM_VALUE ((TimerHandler ^^ n) s) = unat v" .
qed

lemma highTicks_pin0:
  assumes "reachable s" shows "highTicks 0 m s = 0"
proof -
  have "\<not> pinLevel ((TimerHandler ^^ Suc k) s) 0" for k
    using assms by (intro reachable_pin0_low reachable_funpow)
  then show ?thesis unfolding highTicks_def by (simp del: funpow.simps)
qed

lemma duty0_level_constant:
  assumes r: "reachable s" and b: "slotOf p s = Some i"
    and v: "PWM_Value (curISRTimerData s ! i) = 0" and led: "p \<noteq> LED_BUILTIN"
  shows "pinLevel ((TimerHandler ^^ n) s) p = pinLevel s p"
proof (induction n)
  case 0
  show ?case by simp
next
  case (Suc n)
  let ?sn = "(TimerHandler ^^ n) s"
  have i: "i < NUMBER_ISR_TIMERS" and used: "beingUsed (curISRTimerData s ! i)"
    and pi: "pin (curISRTimerData s ! i) = p"
    using b by (simp_all add: slotOf_Some)
  have len: "length (curISRTimerData s) = NUMBER_ISR_TIMERS"
    using reachable_inv [OF r] by (simp add: tableInv_def)
  have invn: "tableInv ?sn" using reachable_inv [OF reachable_funpow [OF r]] by simp
  have un: "beingUsed (curISRTimerData ?sn ! i) = beingUsed (curISRTimerData s ! i)"
    using len i by (intro map_eq_nth funpow_TimerHandler_frame_map) (simp_all add: stepData_fields)
  have pn: "pin (curISRTimerData ?sn ! i) = pin (curISRTimerData s ! i)"
    using len i by (intro map_eq_nth funpow_TimerHandler_frame_map) (simp_all add: stepData_fields)
  have vn: "PWM_Value (curISRTimerData ?sn ! i) = PWM_Value (curISRTimerData s ! i)"
    using len i by (intro map_eq_nth funpow_TimerHandler_frame_map) (simp_all add: stepData_fields)
  have "pinLevel (TimerHandler ?sn) p = drive (curISRTimerData ?sn ! i) (pinLevel ?sn) p"
    using invn i used pi un pn led by (intro TimerHandler_level_bound) simp_all
  also have "\<dots> = pinLevel ?sn p" using vn v by (simp add: drive_duty0)
  finally show ?case using Suc.IH by simp
qed

lemma highTicks_all_high:
  assumes "\<And>k. pinLevel ((TimerHandler ^^ Suc k) s) p"
  shows "highTicks p m s = m"
  unfolding highTicks_def using assms by (simp del: funpow.simps)

subsection \<open>The heartbeat\<close>

text \<open>
  With no entry in use, the first 4999 ticks only advance \<^verbatim>\<open>timeRun\<close>.
\<close>

lemma idle_ticks:
  assumes "n < 5000"
  shows "timeRun ((TimerHandler ^^ n) after_setup) = of_nat n \<and>
         \<not> toggle ((TimerHandler ^^ n) after_setup) \<and>
         (\<forall>i<NUMBER_ISR_TIMERS. \<not> beingUsed (curISRTimerData ((TimerHandler ^^ n) after_setup) ! i))"
  using assms
proof (induction n)
  case 0
  show ?case by (simp add: after_setup_def zeroData_def)
next
  case (Suc n)
  let ?s = "(TimerHandler ^^ n) after_setup"
  have ih: "timeRun ?s = of_nat n" "\<not> toggle ?s"
    "\<forall>i<NUMBER_ISR_TIMERS. \<not> beingUsed (curISRTimerData ?s ! i)"
    using Suc by simp_all
  have len: "length (curISRTimerData ?s) = NUMBER_ISR_TIMERS"
    using reachable_inv [OF reachable_funpow [OF reachable.init]] by (simp add: tableInv_def)
  have "unat (of_nat (Suc n) :: uint32_t) = Suc n"
    using Suc.prems by (simp only: unat_of_nat) simp
  moreover have "unat (5000 :: uint32_t) = 5000" by simp
  ultimately have ne: "(of_nat (Suc n) :: uint32_t) \<noteq> 5000"
    using Suc.prems by (metis less_not_refl)
  have "timeRun ?s + 1 = of_nat (Suc n)" using ih(1) by simp
  then have tr: "timeRun ?s + 1 \<noteq> 5000" using ne by simp
  show ?case
    using ih len tr TimerHandler_statics(1,2) [OF len]
    by (simp add: TimerHandler_table stepData_fields)
qed

subsection \<open>The stores of a request\<close>

text \<open>
  Run without preemption, the stores of a request are the request.
\<close>

lemma run_stores:
  assumes len: "length (curISRTimerData s) = NUMBER_ISR_TIMERS"
  shows "run (fakeAnalogWrite_stores p val s) s = fakeAnalogWrite p val s"
proof (cases "slotOf p s")
  case (Some i)
  then have "i < length (curISRTimerData s)" using len by (simp add: slotOf_Some)
  then show ?thesis
    using Some
    by (simp add: run_def fakeAnalogWrite_stores_def fakeAnalogWrite_def updateFound_stores_def
        updateFound_def Let_def setSlot_def)
next
  case None
  show ?thesis
  proof (cases "freeSlot s")
    case fNone: None
    with None show ?thesis
      by (simp add: run_def fakeAnalogWrite_stores_def fakeAnalogWrite_def)
  next
    case (Some i)
    then have "i < length (curISRTimerData s)" using len by (simp add: freeSlot_Some)
    then show ?thesis
      using None Some
      by (simp add: run_def fakeAnalogWrite_stores_def fakeAnalogWrite_def allocate_stores_def
          allocate_def Let_def setSlot_def pinMode_OUTPUT_def)
  qed
qed

lemma hundred_ticks:
  "beingUsed (curISRTimerData ((TimerHandler ^^ 100) (fakeAnalogWrite 5 200 after_setup)) ! 0)"
  "pin (curISRTimerData ((TimerHandler ^^ 100) (fakeAnalogWrite 5 200 after_setup)) ! 0) = 5"
  "PWM_Value (curISRTimerData ((TimerHandler ^^ 100) (fakeAnalogWrite 5 200 after_setup)) ! 0) = 200"
  "PWM_PremapValue (curISRTimerData ((TimerHandler ^^ 100) (fakeAnalogWrite 5 200 after_setup)) ! 0) = 200"
  "countPWM (curISRTimerData ((TimerHandler ^^ 100) (fakeAnalogWrite 5 200 after_setup)) ! 0) = 100"
proof -
  let ?s1 = "fakeAnalogWrite 5 200 after_setup"
  let ?s0 = "(TimerHandler ^^ 100) ?s1"
  have r1: "reachable ?s1" by (intro reachable.intros)
  have inv1: "tableInv ?s1" using reachable_inv [OF r1] by simp
  then have len1: "length (curISRTimerData ?s1) = NUMBER_ISR_TIMERS" by (simp add: tableInv_def)
  have z: "(0::nat) < NUMBER_ISR_TIMERS" by (simp add: NUMBER_ISR_TIMERS_def)
  have slot1: "beingUsed (curISRTimerData ?s1 ! 0)" "pin (curISRTimerData ?s1 ! 0) = 5"
    "PWM_Value (curISRTimerData ?s1 ! 0) = 200" "PWM_PremapValue (curISRTimerData ?s1 ! 0) = 200"
    "countPWM (curISRTimerData ?s1 ! 0) = 0"
    by code_simp+
  have "beingUsed (curISRTimerData ?s0 ! 0) = beingUsed (curISRTimerData ?s1 ! 0)"
    using len1 z by (intro map_eq_nth funpow_TimerHandler_frame_map) (simp_all add: stepData_fields)
  then show "beingUsed (curISRTimerData ?s0 ! 0)" using slot1 by simp
  have "pin (curISRTimerData ?s0 ! 0) = pin (curISRTimerData ?s1 ! 0)"
    using len1 z by (intro map_eq_nth funpow_TimerHandler_frame_map) (simp_all add: stepData_fields)
  then show "pin (curISRTimerData ?s0 ! 0) = 5" using slot1 by simp
  have "PWM_Value (curISRTimerData ?s0 ! 0) = PWM_Value (curISRTimerData ?s1 ! 0)"
    using len1 z by (intro map_eq_nth funpow_TimerHandler_frame_map) (simp_all add: stepData_fields)
  then show "PWM_Value (curISRTimerData ?s0 ! 0) = 200" using slot1 by simp
  have "PWM_PremapValue (curISRTimerData ?s0 ! 0) = PWM_PremapValue (curISRTimerData ?s1 ! 0)"
    using len1 z by (intro map_eq_nth funpow_TimerHandler_frame_map) (simp_all add: stepData_fields)
  then show "PWM_PremapValue (curISRTimerData ?s0 ! 0) = 200" using slot1 by simp
  have "unat (countPWM (curISRTimerData ?s0 ! 0)) = 100"
    using count_after_ticks [OF inv1 z, of 100] slot1(5) by simp
  then have "unat (countPWM (curISRTimerData ?s0 ! 0)) = unat (100 :: int16_t)" by simp
  then show "countPWM (curISRTimerData ?s0 ! 0) = 100" by (simp only: word_unat_eq_iff)
qed

section \<open>The claims\<close>

text \<open>
  C1, as stated: for every pin bound by a request of a value in \<open>[1, MAX_PWM_VALUE - 1]\<close>
  the pin is high for exactly that many of any \<^verbatim>\<open>MAX_PWM_VALUE\<close> consecutive ticks.
  Pin 0 is bound by the request, but \<^verbatim>\<open>doingSomething\<close> skips an entry whose pin
  is 0: the pin is never driven.
\<close>

theorem pin_zero_never_driven:
  "slotOf 0 (fakeAnalogWrite 0 128 after_setup) = Some 0 \<and>
   PWM_Value (curISRTimerData (fakeAnalogWrite 0 128 after_setup) ! 0) = 128 \<and>
   highTicks 0 MAX_PWM_VALUE (fakeAnalogWrite 0 128 after_setup) = 0 \<and>
   highTicks 0 MAX_PWM_VALUE (fakeAnalogWrite 0 128 after_setup) \<noteq> unat (128 :: uint16_t)"
proof -
  have "reachable (fakeAnalogWrite 0 128 after_setup)" by (intro reachable.intros)
  then have "highTicks 0 MAX_PWM_VALUE (fakeAnalogWrite 0 128 after_setup) = 0"
    by (rule highTicks_pin0)
  moreover have "slotOf 0 (fakeAnalogWrite 0 128 after_setup) = Some 0" by code_simp
  moreover have "PWM_Value (curISRTimerData (fakeAnalogWrite 0 128 after_setup) ! 0) = 128"
    by code_simp
  ultimately show ?thesis by simp
qed

text \<open>
  The heartbeat of \<^verbatim>\<open>TimerHandler\<close> writes \<^verbatim>\<open>LED_BUILTIN\<close> after the loop over the
  entries. A request for that pin made after 4999 idle ticks is at phase 0 on the
  tick where the heartbeat fires, and the pin ends the tick low.
\<close>

lemma heartbeat_overrides_LED_pin:
  "slotOf LED_BUILTIN (fakeAnalogWrite LED_BUILTIN 200 ((TimerHandler ^^ 4999) after_setup)) = Some 0 \<and>
   PWM_Value (curISRTimerData
      (fakeAnalogWrite LED_BUILTIN 200 ((TimerHandler ^^ 4999) after_setup)) ! 0) = 200 \<and>
   countPWM (curISRTimerData
      (fakeAnalogWrite LED_BUILTIN 200 ((TimerHandler ^^ 4999) after_setup)) ! 0) = 0 \<and>
   \<not> pinLevel (TimerHandler
      (fakeAnalogWrite LED_BUILTIN 200 ((TimerHandler ^^ 4999) after_setup))) LED_BUILTIN"
proof -
  let ?s0 = "(TimerHandler ^^ 4999) after_setup"
  let ?s1 = "fakeAnalogWrite LED_BUILTIN 200 ?s0"
  have idle: "timeRun ?s0 = 4999" "\<not> toggle ?s0"
    "\<forall>i<NUMBER_ISR_TIMERS. \<not> beingUsed (curISRTimerData ?s0 ! i)"
    using idle_ticks [of 4999] by simp_all
  have r0: "reachable ?s0" by (intro reachable_funpow reachable.init)
  have len0: "length (curISRTimerData ?s0) = NUMBER_ISR_TIMERS"
    using reachable_inv [OF r0] by (simp add: tableInv_def)
  have none: "slotOf LED_BUILTIN ?s0 = None" using idle(3) by (simp add: slotOf_None)
  have free: "freeSlot ?s0 = Some 0" using idle(3) by (simp add: freeSlot_Some NUMBER_ISR_TIMERS_def)
  have s1: "?s1 = allocate 0 LED_BUILTIN 200 ?s0"
    using none free by (simp add: fakeAnalogWrite_def)
  have slot: "beingUsed (curISRTimerData ?s1 ! 0) \<and> pin (curISRTimerData ?s1 ! 0) = LED_BUILTIN \<and>
      PWM_Value (curISRTimerData ?s1 ! 0) = localValue 200 \<and> countPWM (curISRTimerData ?s1 ! 0) = 0"
    unfolding s1 using len0 by (intro allocate_slot) (simp add: NUMBER_ISR_TIMERS_def)
  have lv: "localValue 200 = 200" by (simp add: localValue_def MAX_PWM_VALUE_def)
  have found: "slotOf LED_BUILTIN ?s1 = Some 0"
    using slot by (simp add: slotOf_Some NUMBER_ISR_TIMERS_def)
  have len1: "length (curISRTimerData ?s1) = NUMBER_ISR_TIMERS"
    using len0 by (simp add: s1 allocate_length)
  have "timeRun ?s1 + 1 = 5000" using idle(1) by (simp add: fakeAnalogWrite_statics)
  then have "pinLevel (TimerHandler ?s1) LED_BUILTIN = toggle ?s1"
    using len1 by (intro TimerHandler_statics(3))
  then have "\<not> pinLevel (TimerHandler ?s1) LED_BUILTIN"
    using idle(2) by (simp add: fakeAnalogWrite_statics)
  then show ?thesis using found slot lv by simp
qed

text \<open>
  C1, as the code has it. Let the pin be neither 0 nor \<^verbatim>\<open>LED_BUILTIN\<close>, the state
  reachable, the value in \<open>[1, MAX_PWM_VALUE - 1]\<close>, and the pin held by entry \<open>i\<close>
  after the request (the request was not dropped by a full table). Then the entry's
  \<^verbatim>\<open>PWM_Value\<close> is the value; after every later tick the pin is high exactly when
  \<^verbatim>\<open>countPWM\<close> before the tick was below the value; and of any
  \<^verbatim>\<open>MAX_PWM_VALUE\<close> consecutive ticks the pin is high after exactly \<open>value\<close>.
\<close>

theorem duty_over_any_period:
  assumes r: "reachable s" and p0: "p \<noteq> 0" and led: "p \<noteq> LED_BUILTIN"
    and v1: "0 < unat val" and v2: "unat val < MAX_PWM_VALUE"
    and b: "slotOf p (fakeAnalogWrite p val s) = Some i"
  shows "PWM_Value (curISRTimerData (fakeAnalogWrite p val s) ! i) = val \<and>
         (\<forall>n. pinLevel ((TimerHandler ^^ Suc n) (fakeAnalogWrite p val s)) p
               = (unat (countPWM (curISRTimerData ((TimerHandler ^^ n) (fakeAnalogWrite p val s)) ! i))
                    < unat val)) \<and>
         (\<forall>n. highTicks p MAX_PWM_VALUE ((TimerHandler ^^ n) (fakeAnalogWrite p val s)) = unat val)"
proof -
  let ?s1 = "fakeAnalogWrite p val s"
  have r1: "reachable ?s1" using r by (rule reachable.request)
  have inv: "tableInv ?s1" and lev: "levelInv ?s1" using reachable_inv [OF r1] by simp_all
  have i: "i < NUMBER_ISR_TIMERS" and used: "beingUsed (curISRTimerData ?s1 ! i)"
    and pi: "pin (curISRTimerData ?s1 ! i) = p"
    using b by (simp_all add: slotOf_Some)
  have lv: "localValue val = val" using v2 by (rule localValue_small)
  have vne: "val \<noteq> 0" using v1 by (simp add: unat_gt_0)
  have v: "PWM_Value (curISRTimerData ?s1 ! i) = val"
    using request_stores [OF r b] lv vne by simp
  show ?thesis
    using v pwm_wave [OF inv lev i used pi p0 led v vne] by simp
qed

theorem duty_over_any_period_witness:
  "PWM_Value (curISRTimerData (fakeAnalogWrite 5 128 after_setup) ! 0) = 128 \<and>
   highTicks 5 MAX_PWM_VALUE ((TimerHandler ^^ 1000) (fakeAnalogWrite 5 128 after_setup)) = 128"
proof -
  have r: "reachable after_setup" by (rule reachable.init)
  have p0: "(5 :: uint16_t) \<noteq> 0" by simp
  have led: "(5 :: uint16_t) \<noteq> LED_BUILTIN" by (simp add: LED_BUILTIN_def)
  have v1: "0 < unat (128 :: uint16_t)" by simp
  have v2: "unat (128 :: uint16_t) < MAX_PWM_VALUE" by (simp add: MAX_PWM_VALUE_def)
  have b: "slotOf 5 (fakeAnalogWrite 5 128 after_setup) = Some 0" by code_simp
  show ?thesis using duty_over_any_period [OF r p0 led v1 v2 b] by simp
qed

text \<open>
  C2. The claim: a request clamps the value into \<open>[0, MAX_PWM_VALUE)\<close>, so no entry in
  use ever holds a duty of \<^verbatim>\<open>MAX_PWM_VALUE\<close> or more. The sketch says the same of
  itself (``For PWM_Value from 0-255'', and \<^verbatim>\<open>loop\<close> prints
  \<^verbatim>\<open>max = MAX_PWM_VALUE - 1\<close>), but its clamp
  \<^verbatim>\<open>(value < MAX_PWM_VALUE) ? value : MAX_PWM_VALUE\<close> turns every larger value into
  \<^verbatim>\<open>MAX_PWM_VALUE\<close> itself. The request of 300 for pin 5 stores 256 in the entry,
  on the initial table through the allocation and on a bound pin through the update.
\<close>

theorem request_above_range_stores_MAX_PWM_VALUE:
  "beingUsed (curISRTimerData (fakeAnalogWrite 5 300 after_setup) ! 0) \<and>
   pin (curISRTimerData (fakeAnalogWrite 5 300 after_setup) ! 0) = 5 \<and>
   PWM_Value (curISRTimerData (fakeAnalogWrite 5 300 after_setup) ! 0) = of_nat MAX_PWM_VALUE \<and>
   \<not> unat (PWM_Value (curISRTimerData (fakeAnalogWrite 5 300 after_setup) ! 0)) < MAX_PWM_VALUE \<and>
   PWM_Value (curISRTimerData (fakeAnalogWrite 5 300 (fakeAnalogWrite 5 100 after_setup)) ! 0)
     = of_nat MAX_PWM_VALUE"
  by code_simp

text \<open>
  What the stored 256 does: \<^verbatim>\<open>countPWM\<close> never equals it, so a pin (other than 0
  and \<^verbatim>\<open>LED_BUILTIN\<close>) whose entry holds it is high after every tick.
\<close>

lemma duty_MAX_PWM_VALUE_always_high:
  assumes r: "reachable s" and p0: "p \<noteq> 0" and led: "p \<noteq> LED_BUILTIN"
    and v: "MAX_PWM_VALUE \<le> unat val"
    and b: "slotOf p (fakeAnalogWrite p val s) = Some i"
  shows "PWM_Value (curISRTimerData (fakeAnalogWrite p val s) ! i) = of_nat MAX_PWM_VALUE \<and>
         pinLevel ((TimerHandler ^^ Suc n) (fakeAnalogWrite p val s)) p"
proof -
  let ?s1 = "fakeAnalogWrite p val s"
  have r1: "reachable ?s1" using r by (rule reachable.request)
  have inv: "tableInv ?s1" and lev: "levelInv ?s1" using reachable_inv [OF r1] by simp_all
  have i: "i < NUMBER_ISR_TIMERS" and used: "beingUsed (curISRTimerData ?s1 ! i)"
    and pi: "pin (curISRTimerData ?s1 ! i) = p"
    using b by (simp_all add: slotOf_Some)
  have lv: "localValue val = 256"
    using v by (simp add: localValue_def MAX_PWM_VALUE_def word_less_nat_alt)
  have pv: "PWM_Value (curISRTimerData ?s1 ! i) = 256"
    using request_stores [OF r b] lv by simp
  have ne: "(256 :: int16_t) \<noteq> 0" by simp
  have c: "unat (countPWM (curISRTimerData ((TimerHandler ^^ n) ?s1) ! i)) < 256"
    using reachable_slotInv(1) [OF reachable_funpow [OF r1] i]
    by (simp add: slotInv_def MAX_PWM_VALUE_def)
  have "pinLevel ((TimerHandler ^^ Suc n) ?s1) p
        = (unat (countPWM (curISRTimerData ((TimerHandler ^^ n) ?s1) ! i)) < unat (256 :: int16_t))"
    using inv lev i used pi p0 led pv ne by (rule pwm_wave(1))
  then show ?thesis using c pv by (simp add: MAX_PWM_VALUE_def)
qed

text \<open>
  C3. The claim: a request repeated with the same value after the first took effect
  writes nothing to the entry. The first request of 255 for pin 5 allocates entry 0
  and, 255 being a boundary value, does not record \<^verbatim>\<open>PWM_PremapValue\<close>, which stays
  0. The repeated request is therefore not recognised: it stores \<^verbatim>\<open>PWM_PremapValue\<close>
  255 and, after a tick, resets \<^verbatim>\<open>countPWM\<close> from 1 to 0.
\<close>

theorem repeated_boundary_request_mutates:
  "PWM_PremapValue (curISRTimerData (fakeAnalogWrite 5 255 after_setup) ! 0) = 0 \<and>
   PWM_PremapValue (curISRTimerData
      (fakeAnalogWrite 5 255 (fakeAnalogWrite 5 255 after_setup)) ! 0) = 255 \<and>
   countPWM (curISRTimerData (TimerHandler (fakeAnalogWrite 5 255 after_setup)) ! 0) = 1 \<and>
   countPWM (curISRTimerData
      (fakeAnalogWrite 5 255 (TimerHandler (fakeAnalogWrite 5 255 after_setup))) ! 0) = 0"
proof -
  let ?s1 = "fakeAnalogWrite 5 255 after_setup"
  let ?s2 = "TimerHandler ?s1"
  have z: "(0::nat) < NUMBER_ISR_TIMERS" by (simp add: NUMBER_ISR_TIMERS_def)
  have slot1: "beingUsed (curISRTimerData ?s1 ! 0)" "pin (curISRTimerData ?s1 ! 0) = 5"
    "PWM_Value (curISRTimerData ?s1 ! 0) = 255" "PWM_PremapValue (curISRTimerData ?s1 ! 0) = 0"
    "countPWM (curISRTimerData ?s1 ! 0) = 0"
    by code_simp+
  have again: "PWM_PremapValue (curISRTimerData (fakeAnalogWrite 5 255 ?s1) ! 0) = 255"
    by code_simp
  have r1: "reachable ?s1" by (intro reachable.intros)
  have len1: "length (curISRTimerData ?s1) = NUMBER_ISR_TIMERS"
    using reachable_inv [OF r1] by (simp add: tableInv_def)
  have t2: "curISRTimerData ?s2 ! 0 = stepData (curISRTimerData ?s1 ! 0)"
    using len1 z by (simp add: TimerHandler_table)
  have nc: "nextCount 0 = 1" by code_simp
  have slot2: "beingUsed (curISRTimerData ?s2 ! 0)" "pin (curISRTimerData ?s2 ! 0) = 5"
    "PWM_Value (curISRTimerData ?s2 ! 0) = 255" "PWM_PremapValue (curISRTimerData ?s2 ! 0) = 0"
    "countPWM (curISRTimerData ?s2 ! 0) = 1"
    unfolding t2 by (simp_all add: stepData_fields slot1 nc)
  have r2: "reachable ?s2" using r1 by (rule reachable.tick)
  have len2: "length (curISRTimerData ?s2) = NUMBER_ISR_TIMERS"
    using reachable_inv [OF r2] by (simp add: tableInv_def)
  have found: "slotOf 5 ?s2 = Some 0" using slot2 z by (simp add: slotOf_Some)
  have lv: "localValue 255 = 255" by (simp add: localValue_def MAX_PWM_VALUE_def)
  have s3: "fakeAnalogWrite 5 255 ?s2 = ?s2\<lparr>curISRTimerData := (curISRTimerData ?s2)
      [0 := (curISRTimerData ?s2 ! 0)\<lparr>PWM_PremapValue := 255, PWM_Value := 255, countPWM := 0\<rparr>]\<rparr>"
    using found slot2(3,4) lv by (simp add: fakeAnalogWrite_def updateFound_nonneg)
  have "countPWM (curISRTimerData (fakeAnalogWrite 5 255 ?s2) ! 0) = 0"
    unfolding s3 using len2 z by simp
  then show ?thesis using slot1(4) again slot2(5) by simp
qed

text \<open>
  The update path records \<^verbatim>\<open>PWM_PremapValue\<close> for every value: when the pin is held
  by an entry before the first of the two requests, the second one, after any number
  of ticks, returns the state as it found it.
\<close>

lemma repeated_request_ignored:
  assumes r: "reachable s" and bound: "slotOf p s \<noteq> None"
  shows "fakeAnalogWrite p val ((TimerHandler ^^ n) (fakeAnalogWrite p val s))
         = (TimerHandler ^^ n) (fakeAnalogWrite p val s)"
proof -
  let ?t = "curISRTimerData s"
  let ?s1 = "fakeAnalogWrite p val s"
  let ?sn = "(TimerHandler ^^ n) ?s1"
  obtain i where i: "slotOf p s = Some i" using bound by auto
  then have i16: "i < NUMBER_ISR_TIMERS" by (simp add: slotOf_Some)
  have len: "length ?t = NUMBER_ISR_TIMERS" using r i16 by (rule reachable_slotInv)
  have "unat (PWM_Value (?t ! i)) \<le> 256"
    using reachable_slotInv(1) [OF r i16] by (simp add: slotInv_def MAX_PWM_VALUE_def)
  then have s1: "?s1 = (if PWM_PremapValue (?t ! i) = localValue val then s
      else s\<lparr>curISRTimerData := ?t[i := (?t ! i)\<lparr>PWM_PremapValue := localValue val,
                      PWM_Value := localValue val, countPWM := 0\<rparr>]\<rparr>)"
    using i by (simp add: fakeAnalogWrite_def updateFound_nonneg)
  have len1: "length (curISRTimerData ?s1) = NUMBER_ISR_TIMERS"
    using len by (simp add: s1)
  have same1: "\<forall>j<NUMBER_ISR_TIMERS. beingUsed (curISRTimerData ?s1 ! j) = beingUsed (?t ! j) \<and>
             pin (curISRTimerData ?s1 ! j) = pin (?t ! j)"
    using len i16 by (simp add: s1 nth_list_update)
  have pm1: "PWM_PremapValue (curISRTimerData ?s1 ! i) = localValue val"
    using len i16 by (simp add: s1)
  have used_n: "\<And>j. j < NUMBER_ISR_TIMERS \<Longrightarrow>
      beingUsed (curISRTimerData ?sn ! j) = beingUsed (curISRTimerData ?s1 ! j)"
    using len1 by (intro map_eq_nth funpow_TimerHandler_frame_map) (simp_all add: stepData_fields)
  have pin_n: "\<And>j. j < NUMBER_ISR_TIMERS \<Longrightarrow>
      pin (curISRTimerData ?sn ! j) = pin (curISRTimerData ?s1 ! j)"
    using len1 by (intro map_eq_nth funpow_TimerHandler_frame_map) (simp_all add: stepData_fields)
  have pm_n: "PWM_PremapValue (curISRTimerData ?sn ! i) = PWM_PremapValue (curISRTimerData ?s1 ! i)"
    using len1 i16 by (intro map_eq_nth funpow_TimerHandler_frame_map) (simp_all add: stepData_fields)
  have "slotOf p ?sn = slotOf p s"
    using same1 used_n pin_n by (intro slotOf_cong) simp
  then have "fakeAnalogWrite p val ?sn = updateFound i val ?sn"
    using i by (simp add: fakeAnalogWrite_def)
  also have "\<dots> = ?sn"
    using pm_n pm1 by (intro updateFound_same) simp
  finally show ?thesis .
qed


text \<open>
  C5. When all 16 entries are in use and none holds the pin, a request for that pin
  returns the state as it was: no field of any entry changes, no pin is configured.
\<close>

theorem full_table_request_dropped:
  assumes full: "\<forall>i<NUMBER_ISR_TIMERS. beingUsed (curISRTimerData s ! i)"
    and new: "\<forall>i<NUMBER_ISR_TIMERS. pin (curISRTimerData s ! i) \<noteq> p"
  shows "fakeAnalogWrite p val s = s"
proof -
  have "slotOf p s = None" using new by (simp add: slotOf_None)
  moreover have "freeSlot s = None" using full by (simp add: freeSlot_None)
  ultimately show ?thesis by (simp add: fakeAnalogWrite_def)
qed

theorem full_table_request_dropped_witness:
  "fakeAnalogWrite 19 100
     (fold (\<lambda>q. fakeAnalogWrite q 100) [2, 3, 4, 5, 6, 7, 8, 9, 10, 11, 12, 14, 15, 16, 17, 18]
        after_setup)
   = fold (\<lambda>q. fakeAnalogWrite q 100) [2, 3, 4, 5, 6, 7, 8, 9, 10, 11, 12, 14, 15, 16, 17, 18]
       after_setup"
proof -
  let ?s = "fold (\<lambda>q. fakeAnalogWrite q 100) [2, 3, 4, 5, 6, 7, 8, 9, 10, 11, 12, 14, 15, 16, 17, 18]
              after_setup"
  have full: "\<forall>i<NUMBER_ISR_TIMERS. beingUsed (curISRTimerData ?s ! i)"
    unfolding all_less_16 by code_simp
  have new: "\<forall>i<NUMBER_ISR_TIMERS. pin (curISRTimerData ?s ! i) \<noteq> 19"
    unfolding all_less_16 by code_simp
  show ?thesis using full_table_request_dropped [OF full new, of 100] .
qed

text \<open>
  C6. The claim: after a request of 0 the pin is never set high and is low through
  every period, and after a request of \<^verbatim>\<open>MAX_PWM_VALUE - 1\<close> it is high for all but
  one tick of each period. Two runs on pin 5 against the first half. As \<^verbatim>\<open>loop\<close>
  does it: request 0, request 255, a tick, request 0; the entry then holds a duty of 0,
  \<^verbatim>\<open>doingSomething\<close> skips it, its inner branch that would write the pin low is
  never reached, and the pin is high after each of the next \<^verbatim>\<open>MAX_PWM_VALUE\<close>
  ticks. And a first request of 255 followed by a request of 0: the allocation did not
  record \<^verbatim>\<open>PWM_PremapValue\<close>, the request of 0 is taken for a repetition and
  ignored, the duty stays 255, and the next tick sets the pin high.
\<close>

theorem request_of_zero_leaves_pin_high:
  "PWM_Value (curISRTimerData (fakeAnalogWrite 5 0
      (TimerHandler (fakeAnalogWrite 5 255 (fakeAnalogWrite 5 0 after_setup)))) ! 0) = 0 \<and>
   highTicks 5 MAX_PWM_VALUE (fakeAnalogWrite 5 0
      (TimerHandler (fakeAnalogWrite 5 255 (fakeAnalogWrite 5 0 after_setup)))) = MAX_PWM_VALUE \<and>
   fakeAnalogWrite 5 0 (fakeAnalogWrite 5 255 after_setup) = fakeAnalogWrite 5 255 after_setup \<and>
   PWM_Value (curISRTimerData (fakeAnalogWrite 5 0 (fakeAnalogWrite 5 255 after_setup)) ! 0) = 255 \<and>
   pinLevel (TimerHandler (fakeAnalogWrite 5 0 (fakeAnalogWrite 5 255 after_setup))) 5"
proof -
  have z: "(0::nat) < NUMBER_ISR_TIMERS" by (simp add: NUMBER_ISR_TIMERS_def)
  have led: "(5 :: uint16_t) \<noteq> LED_BUILTIN" by (simp add: LED_BUILTIN_def)
  \<comment> \<open>the request of 0 after an update to 255 and one tick\<close>
  let ?s2 = "fakeAnalogWrite 5 255 (fakeAnalogWrite 5 0 after_setup)"
  let ?s3 = "TimerHandler ?s2"
  let ?s4 = "fakeAnalogWrite 5 0 ?s3"
  have slot2: "beingUsed (curISRTimerData ?s2 ! 0)" "pin (curISRTimerData ?s2 ! 0) = 5"
    "PWM_Value (curISRTimerData ?s2 ! 0) = 255" "PWM_PremapValue (curISRTimerData ?s2 ! 0) = 255"
    "countPWM (curISRTimerData ?s2 ! 0) = 0"
    by code_simp+
  have r2: "reachable ?s2" by (intro reachable.intros)
  have inv2: "tableInv ?s2" and lev2: "levelInv ?s2" using reachable_inv [OF r2] by simp_all
  have len2: "length (curISRTimerData ?s2) = NUMBER_ISR_TIMERS" using inv2 by (simp add: tableInv_def)
  have "pinLevel ?s3 5
        = (unat (countPWM (curISRTimerData ?s2 ! 0)) < unat (PWM_Value (curISRTimerData ?s2 ! 0)))"
    using inv2 lev2 z slot2(1,2) led by (intro tick_level) (simp_all add: slot2(3))
  then have high3: "pinLevel ?s3 5" by (simp add: slot2)
  have t3: "curISRTimerData ?s3 ! 0 = stepData (curISRTimerData ?s2 ! 0)"
    using len2 z by (simp add: TimerHandler_table)
  have slot3: "beingUsed (curISRTimerData ?s3 ! 0)" "pin (curISRTimerData ?s3 ! 0) = 5"
    "PWM_Value (curISRTimerData ?s3 ! 0) = 255" "PWM_PremapValue (curISRTimerData ?s3 ! 0) = 255"
    unfolding t3 by (simp_all add: stepData_fields slot2)
  have r3: "reachable ?s3" using r2 by (rule reachable.tick)
  have len3: "length (curISRTimerData ?s3) = NUMBER_ISR_TIMERS"
    using reachable_inv [OF r3] by (simp add: tableInv_def)
  have found3: "slotOf 5 ?s3 = Some 0" using slot3 z by (simp add: slotOf_Some)
  have lv: "localValue 0 = 0" by (simp add: localValue_def MAX_PWM_VALUE_def)
  have s4: "?s4 = ?s3\<lparr>curISRTimerData := (curISRTimerData ?s3)
      [0 := (curISRTimerData ?s3 ! 0)\<lparr>PWM_PremapValue := 0, PWM_Value := 0, countPWM := 0\<rparr>]\<rparr>"
    using found3 slot3(3,4) lv by (simp add: fakeAnalogWrite_def updateFound_nonneg)
  have slot4: "beingUsed (curISRTimerData ?s4 ! 0)" "pin (curISRTimerData ?s4 ! 0) = 5"
    "PWM_Value (curISRTimerData ?s4 ! 0) = 0"
    unfolding s4 using len3 z slot3 by simp_all
  have found4: "slotOf 5 ?s4 = Some 0" using slot4 z by (simp add: slotOf_Some)
  have high4: "pinLevel ?s4 5" using high3 by (simp add: fakeAnalogWrite_pinLevel)
  have r4: "reachable ?s4" using r3 by (rule reachable.request)
  have "pinLevel ((TimerHandler ^^ Suc k) ?s4) 5" for k
    using duty0_level_constant [OF r4 found4 slot4(3) led, of "Suc k"] high4 by simp
  then have a: "highTicks 5 MAX_PWM_VALUE ?s4 = MAX_PWM_VALUE" by (rule highTicks_all_high)
  \<comment> \<open>the request of 0 after an allocation with 255\<close>
  let ?a1 = "fakeAnalogWrite 5 255 after_setup"
  have founda: "slotOf 5 ?a1 = Some 0" by code_simp
  have pm: "PWM_PremapValue (curISRTimerData ?a1 ! 0) = localValue 0" by code_simp
  have same: "fakeAnalogWrite 5 0 ?a1 = ?a1"
    using founda pm by (simp add: fakeAnalogWrite_def updateFound_same)
  have slota: "beingUsed (curISRTimerData ?a1 ! 0)" "pin (curISRTimerData ?a1 ! 0) = 5"
    "PWM_Value (curISRTimerData ?a1 ! 0) = 255" "countPWM (curISRTimerData ?a1 ! 0) = 0"
    by code_simp+
  have ra: "reachable ?a1" by (intro reachable.intros)
  have inva: "tableInv ?a1" and leva: "levelInv ?a1" using reachable_inv [OF ra] by simp_all
  have "pinLevel (TimerHandler ?a1) 5
        = (unat (countPWM (curISRTimerData ?a1 ! 0)) < unat (PWM_Value (curISRTimerData ?a1 ! 0)))"
    using inva leva z slota(1,2) led by (intro tick_level) (simp_all add: slota(3))
  then have b: "pinLevel (TimerHandler ?a1) 5" using slota by simp
  show ?thesis using slot4(3) a same slota(3) b by simp
qed

text \<open>
  C7. In every state reached from the initial table by requests and ticks, the phase
  counter \<^verbatim>\<open>countPWM\<close> of every entry, in use or not, lies in \<open>[0, MAX_PWM_VALUE)\<close>:
  a tick advances it to \<open>(countPWM + 1) mod MAX_PWM_VALUE\<close>, and a request leaves
  it as it is or resets it to 0.
\<close>

theorem countPWM_in_range:
  assumes "reachable s" and "i < NUMBER_ISR_TIMERS"
  shows "0 \<le> sint (countPWM (curISRTimerData s ! i)) \<and>
         sint (countPWM (curISRTimerData s ! i)) < int MAX_PWM_VALUE \<and>
         sint (countPWM (curISRTimerData (TimerHandler s) ! i))
           = (sint (countPWM (curISRTimerData s ! i)) + 1) mod int MAX_PWM_VALUE \<and>
         (countPWM (curISRTimerData (fakeAnalogWrite p val s) ! i) = countPWM (curISRTimerData s ! i) \<or>
          countPWM (curISRTimerData (fakeAnalogWrite p val s) ! i) = 0)"
proof -
  let ?c = "countPWM (curISRTimerData s ! i)"
  have len: "length (curISRTimerData s) = NUMBER_ISR_TIMERS"
    using assms by (rule reachable_slotInv)
  have c: "unat ?c < 256"
    using reachable_slotInv(1) [OF assms] by (simp add: slotInv_def MAX_PWM_VALUE_def)
  then have s: "sint ?c = int (unat ?c)" by (intro small_sint) simp
  have n: "unat (nextCount ?c) = (unat ?c + 1) mod 256" using c by (rule nextCount_small)
  then have "unat (nextCount ?c) \<le> 256" by simp
  then have "sint (nextCount ?c) = int (unat (nextCount ?c))" by (rule small_sint)
  then have step: "sint (nextCount ?c) = (sint ?c + 1) mod 256"
    unfolding n s by (simp add: zmod_int add.commute)
  have "curISRTimerData (TimerHandler s) ! i = stepData (curISRTimerData s ! i)"
    using len assms(2) by (simp add: TimerHandler_table)
  then have t: "sint (countPWM (curISRTimerData (TimerHandler s) ! i)) = (sint ?c + 1) mod int MAX_PWM_VALUE"
    using step by (simp add: stepData_fields MAX_PWM_VALUE_def)
  have r: "countPWM (curISRTimerData (fakeAnalogWrite p val s) ! i) = ?c \<or>
           countPWM (curISRTimerData (fakeAnalogWrite p val s) ! i) = 0"
    using len assms(2) by (intro fakeAnalogWrite_count) simp
  have b: "0 \<le> sint ?c \<and> sint ?c < int MAX_PWM_VALUE"
    using c by (intro small_sint_less) (simp_all add: MAX_PWM_VALUE_def)
  show ?thesis using b t r by (simp only:)
qed

theorem countPWM_in_range_witness:
  "reachable (TimerHandler (fakeAnalogWrite 5 128 after_setup)) \<and>
   (0::nat) < NUMBER_ISR_TIMERS \<and>
   sint (countPWM (curISRTimerData (TimerHandler (fakeAnalogWrite 5 128 after_setup)) ! 0)) < int MAX_PWM_VALUE"
proof -
  have r: "reachable (TimerHandler (fakeAnalogWrite 5 128 after_setup))"
    by (intro reachable.intros)
  have i: "(0::nat) < NUMBER_ISR_TIMERS" by (simp add: NUMBER_ISR_TIMERS_def)
  show ?thesis using r i countPWM_in_range [OF r i] by blast
qed

text \<open>
  C8. The claim: a request locks the tick out while it writes an entry, so the tick
  never sees a new \<^verbatim>\<open>PWM_Value\<close> with a stale \<^verbatim>\<open>countPWM\<close>. The sketch never
  masks the interrupt, although its header notes say that interrupts must be disabled
  while shared data of several variables is accessed. After a request of 200 for pin 5
  and 100 ticks, let a request of 100 be preempted by one tick after its store of
  \<^verbatim>\<open>PWM_Value\<close>: the tick finds \<^verbatim>\<open>PWM_Value\<close> 100 with \<^verbatim>\<open>countPWM\<close> still 100,
  takes it for the end of the duty window and drives the pin low. In both orders of
  the whole request and the tick the pin is high.
\<close>

theorem preempted_request_not_serializable:
  "PWM_Value (curISRTimerData (run (take 2 (fakeAnalogWrite_stores 5 100
       ((TimerHandler ^^ 100) (fakeAnalogWrite 5 200 after_setup))))
       ((TimerHandler ^^ 100) (fakeAnalogWrite 5 200 after_setup))) ! 0) = 100 \<and>
   countPWM (curISRTimerData (run (take 2 (fakeAnalogWrite_stores 5 100
       ((TimerHandler ^^ 100) (fakeAnalogWrite 5 200 after_setup))))
       ((TimerHandler ^^ 100) (fakeAnalogWrite 5 200 after_setup))) ! 0) = 100 \<and>
   \<not> pinLevel (preempted 2 5 100 ((TimerHandler ^^ 100) (fakeAnalogWrite 5 200 after_setup))) 5 \<and>
   pinLevel (TimerHandler (fakeAnalogWrite 5 100 ((TimerHandler ^^ 100) (fakeAnalogWrite 5 200 after_setup)))) 5 \<and>
   pinLevel (fakeAnalogWrite 5 100 (TimerHandler ((TimerHandler ^^ 100) (fakeAnalogWrite 5 200 after_setup)))) 5"
proof -
  let ?s0 = "(TimerHandler ^^ 100) (fakeAnalogWrite 5 200 after_setup)"
  let ?t = "curISRTimerData ?s0"
  let ?d = "(?t ! 0)\<lparr>PWM_PremapValue := 100, PWM_Value := 100\<rparr>"
  let ?mid = "?s0\<lparr>curISRTimerData := ?t[0 := ?d]\<rparr>"
  note slot = hundred_ticks
  have r0: "reachable ?s0" by (intro reachable_funpow reachable.intros)
  have inv0: "tableInv ?s0" and lev0: "levelInv ?s0" using reachable_inv [OF r0] by simp_all
  have len0: "length ?t = NUMBER_ISR_TIMERS" using inv0 by (simp add: tableInv_def)
  have z: "(0::nat) < NUMBER_ISR_TIMERS" by (simp add: NUMBER_ISR_TIMERS_def)
  have led: "(5 :: uint16_t) \<noteq> LED_BUILTIN" by (simp add: LED_BUILTIN_def)
  have lv: "localValue 100 = 100" by (simp add: localValue_def MAX_PWM_VALUE_def)
  have found: "slotOf 5 ?s0 = Some 0" using slot z by (simp add: slotOf_Some)
  have nonneg: "0 \<le>s PWM_Value (?t ! 0)" by (rule small_nonneg) (simp add: slot)
  have stores: "fakeAnalogWrite_stores 5 100 ?s0 =
      [setSlot 0 (\<lambda>d. d\<lparr>PWM_PremapValue := 100\<rparr>),
       setSlot 0 (\<lambda>d. d\<lparr>PWM_Value := 100\<rparr>),
       setSlot 0 (\<lambda>d. d\<lparr>countPWM := 0\<rparr>)]"
    using found nonneg slot(4) lv
    by (simp add: fakeAnalogWrite_stores_def updateFound_stores_def Let_def)
  have mid: "run (take 2 (fakeAnalogWrite_stores 5 100 ?s0)) ?s0 = ?mid"
    using len0 z unfolding stores by (simp add: run_def setSlot_def)
  \<comment> \<open>what the tick sees between the second and the third store\<close>
  have seen: "PWM_Value (curISRTimerData ?mid ! 0) = 100" "countPWM (curISRTimerData ?mid ! 0) = 100"
    using len0 z slot(5) by simp_all
  have slmid: "slotInv ?d"
    using inv0 z len0 slot(1) by (simp add: tableInv_def slotInv_def MAX_PWM_VALUE_def)
  have invmid: "tableInv ?mid"
    using inv0 z slmid
  proof (rule tableInv_update)
    show "beingUsed ?d \<longrightarrow> (\<forall>j<NUMBER_ISR_TIMERS. j \<noteq> 0 \<longrightarrow> beingUsed (?t ! j) \<longrightarrow> pin (?t ! j) \<noteq> pin ?d)"
    proof (intro impI allI notI)
      fix j
      assume "j < NUMBER_ISR_TIMERS" and "j \<noteq> 0" and "beingUsed (?t ! j)" and "pin (?t ! j) = pin ?d"
      then have "j = 0" using tableInv_unique [OF inv0 _ z _ slot(1), of j] by simp
      with \<open>j \<noteq> 0\<close> show False by simp
    qed
    show "curISRTimerData ?mid = ?t[0 := ?d]" by simp
  qed
  have "pinLevel (TimerHandler ?mid) 5 = drive (curISRTimerData ?mid ! 0) (pinLevel ?mid) 5"
    using invmid z led len0 slot(1,2) by (intro TimerHandler_level_bound) simp_all
  also have "\<dots> = False"
    using len0 z slot by (simp add: drive_def word_sless_alt)
  finally have low: "\<not> pinLevel (TimerHandler ?mid) 5" by simp
  have "preempted 2 5 100 ?s0 = setSlot 0 (\<lambda>d. d\<lparr>countPWM := 0\<rparr>) (TimerHandler ?mid)"
    unfolding preempted_def Let_def mid unfolding stores by (simp add: run_def)
  then have a: "\<not> pinLevel (preempted 2 5 100 ?s0) 5"
    using low by (simp add: setSlot_def)
  \<comment> \<open>the request first, then the tick\<close>
  let ?s1 = "fakeAnalogWrite 5 100 ?s0"
  have r1: "reachable ?s1" using r0 by (rule reachable.request)
  have inv1: "tableInv ?s1" and lev1: "levelInv ?s1" using reachable_inv [OF r1] by simp_all
  have s1: "?s1 = ?s0\<lparr>curISRTimerData :=
      ?t[0 := (?t ! 0)\<lparr>PWM_PremapValue := 100, PWM_Value := 100, countPWM := 0\<rparr>]\<rparr>"
    using found slot(3,4) lv by (simp add: fakeAnalogWrite_def updateFound_nonneg)
  have slot1: "beingUsed (curISRTimerData ?s1 ! 0)" "pin (curISRTimerData ?s1 ! 0) = 5"
    "PWM_Value (curISRTimerData ?s1 ! 0) = 100" "countPWM (curISRTimerData ?s1 ! 0) = 0"
    unfolding s1 using len0 z slot by simp_all
  have "pinLevel (TimerHandler ?s1) 5
        = (unat (countPWM (curISRTimerData ?s1 ! 0)) < unat (PWM_Value (curISRTimerData ?s1 ! 0)))"
    using inv1 lev1 z slot1(1,2) led by (intro tick_level) (simp_all add: slot1(3))
  then have b: "pinLevel (TimerHandler ?s1) 5" by (simp add: slot1(3,4))
  \<comment> \<open>the tick first, then the request\<close>
  have "pinLevel (TimerHandler ?s0) 5
        = (unat (countPWM (?t ! 0)) < unat (PWM_Value (?t ! 0)))"
    using inv0 lev0 z slot(1,2) led by (intro tick_level) (simp_all add: slot(3))
  then have c: "pinLevel (fakeAnalogWrite 5 100 (TimerHandler ?s0)) 5"
    by (simp add: slot(3,5) fakeAnalogWrite_pinLevel)
  show ?thesis using mid seen a b c by simp
qed

text \<open>
  C9. Through requests and ticks alone no entry is ever freed: in every reachable state
  \<^verbatim>\<open>PWM_Value\<close> of every entry is non-negative, so the test \<^verbatim>\<open>PWM_Value >= 0\<close>
  that guards the release branch holds, and an entry in use is still in use after any
  request and after any tick.
\<close>

theorem no_slot_freed:
  assumes "reachable s" and "i < NUMBER_ISR_TIMERS"
  shows "0 \<le> sint (PWM_Value (curISRTimerData s ! i)) \<and>
         0 \<le>s PWM_Value (curISRTimerData s ! i) \<and>
         (beingUsed (curISRTimerData s ! i) \<longrightarrow>
            beingUsed (curISRTimerData (fakeAnalogWrite p val s) ! i) \<and>
            beingUsed (curISRTimerData (TimerHandler s) ! i))"
proof -
  let ?t = "curISRTimerData s"
  have len: "length ?t = NUMBER_ISR_TIMERS" using assms by (rule reachable_slotInv)
  have small: "\<And>j. j < NUMBER_ISR_TIMERS \<Longrightarrow> unat (PWM_Value (?t ! j)) \<le> 256"
    using reachable_slotInv(1) [OF assms(1)] by (simp add: slotInv_def MAX_PWM_VALUE_def)
  have nonneg: "\<And>j. j < NUMBER_ISR_TIMERS \<Longrightarrow> 0 \<le>s PWM_Value (?t ! j)"
    using small by (rule small_nonneg)
  have a: "0 \<le> sint (PWM_Value (?t ! i))"
    using small_sint_le [OF small [OF assms(2)]] by simp
  have tick: "beingUsed (curISRTimerData (TimerHandler s) ! i) = beingUsed (?t ! i)"
    using len assms(2) by (simp add: TimerHandler_table stepData_fields)
  have req: "beingUsed (curISRTimerData (fakeAnalogWrite p val s) ! i)" if u: "beingUsed (?t ! i)"
  proof (cases "slotOf p s")
    case (Some k)
    then have "k < NUMBER_ISR_TIMERS" by (simp add: slotOf_Some)
    then have "0 \<le>s PWM_Value (?t ! k)" by (rule nonneg)
    then show ?thesis
      using Some u len assms(2) by (simp add: fakeAnalogWrite_def updateFound_keeps_used)
  next
    case None
    then show ?thesis
      using u len assms(2) by (simp add: fakeAnalogWrite_def allocate_keeps_used split: option.splits)
  qed
  show ?thesis using a nonneg [OF assms(2)] tick req by simp
qed

theorem no_slot_freed_witness:
  "reachable (fakeAnalogWrite 5 128 after_setup) \<and> (0::nat) < NUMBER_ISR_TIMERS \<and>
   beingUsed (curISRTimerData (fakeAnalogWrite 5 128 after_setup) ! 0) \<and>
   beingUsed (curISRTimerData (fakeAnalogWrite 5 65535 (fakeAnalogWrite 5 128 after_setup)) ! 0) \<and>
   beingUsed (curISRTimerData (TimerHandler (fakeAnalogWrite 5 128 after_setup)) ! 0)"
proof -
  have r: "reachable (fakeAnalogWrite 5 128 after_setup)"
    by (intro reachable.intros)
  have i: "(0::nat) < NUMBER_ISR_TIMERS" by (simp add: NUMBER_ISR_TIMERS_def)
  have u: "beingUsed (curISRTimerData (fakeAnalogWrite 5 128 after_setup) ! 0)"
    by code_simp
  show ?thesis using r i u no_slot_freed [OF r i, of 5 65535] by blast
qed

text \<open>
  C10. One call of \<^verbatim>\<open>doingSomething\<close> leaves \<^verbatim>\<open>beingUsed\<close>, \<^verbatim>\<open>pin\<close>,
  \<^verbatim>\<open>PWM_Value\<close> and \<^verbatim>\<open>PWM_PremapValue\<close> of every entry as they were and changes no
  entry but its own; so does a whole tick for the four fields. A tick alone never
  frees or rebinds an entry and never changes its duty.
\<close>

theorem tick_frame:
  "map beingUsed (curISRTimerData (doingSomething i s)) = map beingUsed (curISRTimerData s) \<and>
   map pin (curISRTimerData (doingSomething i s)) = map pin (curISRTimerData s) \<and>
   map PWM_Value (curISRTimerData (doingSomething i s)) = map PWM_Value (curISRTimerData s) \<and>
   map PWM_PremapValue (curISRTimerData (doingSomething i s)) = map PWM_PremapValue (curISRTimerData s) \<and>
   (\<forall>j. j \<noteq> i \<longrightarrow> curISRTimerData (doingSomething i s) ! j = curISRTimerData s ! j) \<and>
   map beingUsed (curISRTimerData (TimerHandler s)) = map beingUsed (curISRTimerData s) \<and>
   map pin (curISRTimerData (TimerHandler s)) = map pin (curISRTimerData s) \<and>
   map PWM_Value (curISRTimerData (TimerHandler s)) = map PWM_Value (curISRTimerData s) \<and>
   map PWM_PremapValue (curISRTimerData (TimerHandler s)) = map PWM_PremapValue (curISRTimerData s)"
proof -
  have "\<forall>j. j \<noteq> i \<longrightarrow> curISRTimerData (doingSomething i s) ! j = curISRTimerData s ! j"
    by (simp add: doingSomething_eq)
  then show ?thesis
    by (simp add: doingSomething_frame_map TimerHandler_frame_map stepData_fields)
qed

theorem tick_frame_witness:
  "(1::nat) \<noteq> 0 \<and>
   curISRTimerData (doingSomething 0 (fakeAnalogWrite 5 128 after_setup)) ! 1
     = curISRTimerData (fakeAnalogWrite 5 128 after_setup) ! 1 \<and>
   map beingUsed (curISRTimerData (doingSomething 0 (fakeAnalogWrite 5 128 after_setup)))
     = map beingUsed (curISRTimerData (fakeAnalogWrite 5 128 after_setup))"
  using tick_frame [of 0 "fakeAnalogWrite 5 128 after_setup"] by simp

end
